theory Spec2Isabelle
  imports Main "HOL-Library.Word"
begin

unbundle bit_operations_syntax

section \<open>The cached enforcer of \<^verbatim>\<open>enforcer_cached.go\<close>\<close>

text \<open>
  The development embeds \<^verbatim>\<open>CachedEnforcer\<close>: key derivation, shard routing, the
  memoising \<^verbatim>\<open>Enforce\<close>, and the invalidation hooks of the policy mutators. The two
  collaborators the file only calls, the \<^verbatim>\<open>cache.Cache\<close> backend of every shard and the
  embedded \<^verbatim>\<open>*Enforcer\<close>, are parameters: a record of operations over an arbitrary
  backend state \<open>'c\<close> and engine state \<open>'e\<close>. Every call that crosses to a collaborator or to
  a mutex is appended to a log, so that "is invoked" and "is never invoked" are statements
  about that log. A slice indexed out of range is a panic, and a panic is a result of its
  own; the state it leaves is kept. The execution is sequential: a mutex is free whenever a
  method takes it, so locking shows in the log only.
\<close>

subsection \<open>Values\<close>

text \<open>
  Go's \<^verbatim>\<open>error\<close> results: \<open>None\<close> is \<^verbatim>\<open>nil\<close>, \<open>ErrNoSuchKey\<close> is the sentinel
  \<^verbatim>\<open>cache.ErrNoSuchKey\<close> (compared by identity in the source), \<open>ErrOther\<close> is any other
  error value.
\<close>

datatype error = ErrNoSuchKey | ErrOther string

text \<open>
  An \<^verbatim>\<open>interface{}\<close> argument, by the cases of the type switch in \<^verbatim>\<open>getKey\<close>: a
  \<^verbatim>\<open>string\<close>; a value implementing \<^verbatim>\<open>CacheableParam\<close>, carried as the string its
  \<^verbatim>\<open>GetCacheKey()\<close> returns; the \<^verbatim>\<open>nil\<close> interface (what \<^verbatim>\<open>make([]interface{}, n)\<close>
  holds); any other dynamic value, with a tag to tell two of them apart.
\<close>

datatype param = String string | Cacheable string | NilValue | Other nat

text \<open>A run-time panic of the Go runtime; the only one this file can raise is an index
  out of range, reported with the index and the length.\<close>

datatype panic = IndexOutOfRange nat nat

datatype 'a outcome = Panic panic | Return 'a

datatype mutex = RWMutex

text \<open>The calls that leave \<^verbatim>\<open>CachedEnforcer\<close>: on a shard's mutex, on a shard's backend
  (with the shard index), on the embedded enforcer.\<close>

datatype event =
    EvRLock nat | EvRUnlock nat | EvLock nat | EvUnlock nat
  | EvGet nat string | EvSet nat string bool "nat list" | EvDelete nat string | EvClear nat
  | EvEnforce "param list" | EvLoadPolicy | EvRemovePolicy "param list"
  | EvRemovePolicies "string list list"

text \<open>The \<^verbatim>\<open>cache.Cache\<close> interface, as operations on a backend state. Each returns the
  state it leaves behind: a backend is free to change on a read (expiry, statistics).\<close>

record 'c Cache =
  cache_Get :: "'c \<Rightarrow> string \<Rightarrow> (bool \<times> error option) \<times> 'c"
  cache_Set :: "'c \<Rightarrow> string \<Rightarrow> bool \<Rightarrow> nat list \<Rightarrow> error option \<times> 'c"
  cache_Delete :: "'c \<Rightarrow> string \<Rightarrow> error option \<times> 'c"
  cache_Clear :: "'c \<Rightarrow> error option \<times> 'c"

text \<open>The methods of the embedded \<^verbatim>\<open>*Enforcer\<close> that the file calls.\<close>

record 'e Engine =
  eng_Enforce :: "'e \<Rightarrow> param list \<Rightarrow> (bool \<times> error option) \<times> 'e"
  eng_LoadPolicy :: "'e \<Rightarrow> error option \<times> 'e"
  eng_RemovePolicy :: "'e \<Rightarrow> param list \<Rightarrow> (bool \<times> error option) \<times> 'e"
  eng_RemovePolicies :: "'e \<Rightarrow> string list list \<Rightarrow> (bool \<times> error option) \<times> 'e"

text \<open>The struct. \<open>calls\<close> is the log of events; it is not a field of the source.\<close>

record ('c, 'e) CachedEnforcer =
  Enforcer :: 'e
  expireTime :: nat
  cache :: "'c list"
  enableCache :: "32 word"
  locker :: "mutex list"
  calls :: "event list"

definition shardPartitions :: nat where
  "shardPartitions = 32"

subsection \<open>Key derivation and shard routing\<close>

text \<open>\<^verbatim>\<open>getKey\<close>: the accumulator is the \<^verbatim>\<open>strings.Builder\<close>.\<close>

fun getKey_loop :: "string \<Rightarrow> param list \<Rightarrow> string \<times> bool" where
  "getKey_loop key [] = (key, True)"
| "getKey_loop key (String s # params) = getKey_loop ((key @ s) @ ''$$'') params"
| "getKey_loop key (Cacheable k # params) = getKey_loop ((key @ k) @ ''$$'') params"
| "getKey_loop key (_ # params) = ('''', False)"

definition getKey :: "param list \<Rightarrow> string \<times> bool" where
  "getKey params = getKey_loop '''' params"

text \<open>
  \<^verbatim>\<open>hash/fnv\<close>'s \<^verbatim>\<open>New32a\<close>, \<^verbatim>\<open>Write\<close> and \<^verbatim>\<open>Sum32\<close> (Go's standard library): offset
  basis 2166136261, and per byte an exclusive or followed by a multiplication by the prime
  16777619, in 32 bits. \<^verbatim>\<open>Write\<close> never returns an error, so the \<^verbatim>\<open>return 0\<close> of
  \<^verbatim>\<open>getShardIdx\<close> is not reached. \<^verbatim>\<open>int\<close> is taken as 64 bits wide, where the
  conversion of a \<^verbatim>\<open>uint32\<close> is its value.
\<close>

definition fnv32a :: "string \<Rightarrow> 32 word" where
  "fnv32a s = foldl (\<lambda>h c. (h XOR of_nat (of_char c)) * 16777619) 2166136261 s"

definition getShardIdx :: "string \<Rightarrow> nat" where
  "getShardIdx s = unat (fnv32a s) mod shardPartitions"

subsection \<open>Calls on a shard's backend and on the engine\<close>

text \<open>\<^verbatim>\<open>e.cache[idx].Get(key)\<close> and its siblings: the index expression panics out of
  range; otherwise the backend runs on the shard's state and the call is logged.\<close>

definition shard_Get ::
  "'c Cache \<Rightarrow> nat \<Rightarrow> string \<Rightarrow> ('c, 'e) CachedEnforcer
    \<Rightarrow> (bool \<times> error option) outcome \<times> ('c, 'e) CachedEnforcer" where
  "shard_Get B idx key e =
     (if idx < length (cache e) then
        (case cache_Get B (cache e ! idx) key of
           (r, c') \<Rightarrow>
             (Return r, e\<lparr>cache := (cache e)[idx := c'], calls := calls e @ [EvGet idx key]\<rparr>))
      else (Panic (IndexOutOfRange idx (length (cache e))), e))"

definition shard_Set ::
  "'c Cache \<Rightarrow> nat \<Rightarrow> string \<Rightarrow> bool \<Rightarrow> nat list \<Rightarrow> ('c, 'e) CachedEnforcer
    \<Rightarrow> error option outcome \<times> ('c, 'e) CachedEnforcer" where
  "shard_Set B idx key res extra e =
     (if idx < length (cache e) then
        (case cache_Set B (cache e ! idx) key res extra of
           (r, c') \<Rightarrow>
             (Return r,
              e\<lparr>cache := (cache e)[idx := c'], calls := calls e @ [EvSet idx key res extra]\<rparr>))
      else (Panic (IndexOutOfRange idx (length (cache e))), e))"

definition shard_Delete ::
  "'c Cache \<Rightarrow> nat \<Rightarrow> string \<Rightarrow> ('c, 'e) CachedEnforcer
    \<Rightarrow> error option outcome \<times> ('c, 'e) CachedEnforcer" where
  "shard_Delete B idx key e =
     (if idx < length (cache e) then
        (case cache_Delete B (cache e ! idx) key of
           (r, c') \<Rightarrow>
             (Return r, e\<lparr>cache := (cache e)[idx := c'], calls := calls e @ [EvDelete idx key]\<rparr>))
      else (Panic (IndexOutOfRange idx (length (cache e))), e))"

definition shard_Clear ::
  "'c Cache \<Rightarrow> nat \<Rightarrow> ('c, 'e) CachedEnforcer
    \<Rightarrow> error option outcome \<times> ('c, 'e) CachedEnforcer" where
  "shard_Clear B i e =
     (if i < length (cache e) then
        (case cache_Clear B (cache e ! i) of
           (r, c') \<Rightarrow>
             (Return r, e\<lparr>cache := (cache e)[i := c'], calls := calls e @ [EvClear i]\<rparr>))
      else (Panic (IndexOutOfRange i (length (cache e))), e))"

definition record_call :: "event \<Rightarrow> ('c, 'e) CachedEnforcer \<Rightarrow> ('c, 'e) CachedEnforcer" where
  "record_call ev e = e\<lparr>calls := calls e @ [ev]\<rparr>"

definition engine_Enforce ::
  "'e Engine \<Rightarrow> param list \<Rightarrow> ('c, 'e) CachedEnforcer
    \<Rightarrow> (bool \<times> error option) \<times> ('c, 'e) CachedEnforcer" where
  "engine_Enforce E rvals e =
     (case eng_Enforce E (Enforcer e) rvals of
        (r, en') \<Rightarrow> (r, e\<lparr>Enforcer := en', calls := calls e @ [EvEnforce rvals]\<rparr>))"

definition engine_LoadPolicy ::
  "'e Engine \<Rightarrow> ('c, 'e) CachedEnforcer \<Rightarrow> error option \<times> ('c, 'e) CachedEnforcer" where
  "engine_LoadPolicy E e =
     (case eng_LoadPolicy E (Enforcer e) of
        (r, en') \<Rightarrow> (r, e\<lparr>Enforcer := en', calls := calls e @ [EvLoadPolicy]\<rparr>))"

definition engine_RemovePolicy ::
  "'e Engine \<Rightarrow> param list \<Rightarrow> ('c, 'e) CachedEnforcer
    \<Rightarrow> (bool \<times> error option) \<times> ('c, 'e) CachedEnforcer" where
  "engine_RemovePolicy E params e =
     (case eng_RemovePolicy E (Enforcer e) params of
        (r, en') \<Rightarrow> (r, e\<lparr>Enforcer := en', calls := calls e @ [EvRemovePolicy params]\<rparr>))"

definition engine_RemovePolicies ::
  "'e Engine \<Rightarrow> string list list \<Rightarrow> ('c, 'e) CachedEnforcer
    \<Rightarrow> (bool \<times> error option) \<times> ('c, 'e) CachedEnforcer" where
  "engine_RemovePolicies E rules e =
     (case eng_RemovePolicies E (Enforcer e) rules of
        (r, en') \<Rightarrow> (r, e\<lparr>Enforcer := en', calls := calls e @ [EvRemovePolicies rules]\<rparr>))"

subsection \<open>Locked shard access\<close>

text \<open>\<^verbatim>\<open>getCachedResult\<close> and \<^verbatim>\<open>setCachedResult\<close>: the deferred unlock runs on every way
  out, also when the backend index panics.\<close>

definition getCachedResult ::
  "'c Cache \<Rightarrow> string \<Rightarrow> ('c, 'e) CachedEnforcer
    \<Rightarrow> (bool \<times> error option) outcome \<times> ('c, 'e) CachedEnforcer" where
  "getCachedResult B key e =
     (let idx = getShardIdx key in
      if idx < length (locker e) then
        (case shard_Get B idx key (record_call (EvRLock idx) e) of
           (r, e') \<Rightarrow> (r, record_call (EvRUnlock idx) e'))
      else (Panic (IndexOutOfRange idx (length (locker e))), e))"

definition setCachedResult ::
  "'c Cache \<Rightarrow> string \<Rightarrow> bool \<Rightarrow> nat list \<Rightarrow> ('c, 'e) CachedEnforcer
    \<Rightarrow> error option outcome \<times> ('c, 'e) CachedEnforcer" where
  "setCachedResult B key res extra e =
     (let idx = getShardIdx key in
      if idx < length (locker e) then
        (case shard_Set B idx key res extra (record_call (EvLock idx) e) of
           (r, e') \<Rightarrow> (r, record_call (EvUnlock idx) e'))
      else (Panic (IndexOutOfRange idx (length (locker e))), e))"

subsection \<open>The coordinator\<close>

definition EnableCache :: "bool \<Rightarrow> ('c, 'e) CachedEnforcer \<Rightarrow> ('c, 'e) CachedEnforcer" where
  "EnableCache flag e = e\<lparr>enableCache := (if flag then 1 else 0)\<rparr>"

definition SetExpireTime :: "nat \<Rightarrow> ('c, 'e) CachedEnforcer \<Rightarrow> ('c, 'e) CachedEnforcer" where
  "SetExpireTime t e = e\<lparr>expireTime := t\<rparr>"

definition SetCache ::
  "string \<Rightarrow> 'c \<Rightarrow> ('c, 'e) CachedEnforcer \<Rightarrow> unit outcome \<times> ('c, 'e) CachedEnforcer" where
  "SetCache key c e =
     (let idx = getShardIdx key in
      if idx < length (cache e) then (Return (), e\<lparr>cache := (cache e)[idx := c]\<rparr>)
      else (Panic (IndexOutOfRange idx (length (cache e))), e))"

definition Enforce ::
  "'c Cache \<Rightarrow> 'e Engine \<Rightarrow> param list \<Rightarrow> ('c, 'e) CachedEnforcer
    \<Rightarrow> (bool \<times> error option) outcome \<times> ('c, 'e) CachedEnforcer" where
  "Enforce B E rvals e =
     (if enableCache e = 0 then
        (case engine_Enforce E rvals e of (r, e') \<Rightarrow> (Return r, e'))
      else
        (case getKey rvals of
           (key, ok) \<Rightarrow>
             if \<not> ok then (case engine_Enforce E rvals e of (r, e') \<Rightarrow> (Return r, e'))
             else
               (case getCachedResult B key e of
                  (Panic p, e1) \<Rightarrow> (Panic p, e1)
                | (Return (res, err), e1) \<Rightarrow>
                    if err = None then (Return (res, None), e1)
                    else if err \<noteq> Some ErrNoSuchKey then (Return (res, err), e1)
                    else
                      (case engine_Enforce E rvals e1 of
                         ((res, err), e2) \<Rightarrow>
                           if err \<noteq> None then (Return (False, err), e2)
                           else
                             (case setCachedResult B key res [expireTime e2] e2 of
                                (Panic p, e3) \<Rightarrow> (Panic p, e3)
                              | (Return err, e3) \<Rightarrow> (Return (res, err), e3))))))"

text \<open>The loop of \<^verbatim>\<open>LoadPolicy\<close> over the shard indices still to visit; no lock is taken.\<close>

fun LoadPolicy_loop ::
  "'c Cache \<Rightarrow> nat list \<Rightarrow> ('c, 'e) CachedEnforcer
    \<Rightarrow> error option outcome \<times> ('c, 'e) CachedEnforcer" where
  "LoadPolicy_loop B [] e = (Return None, e)"
| "LoadPolicy_loop B (i # is) e =
     (case shard_Clear B i e of
        (Panic p, e1) \<Rightarrow> (Panic p, e1)
      | (Return err, e1) \<Rightarrow>
          if err \<noteq> None then (Return err, e1) else LoadPolicy_loop B is e1)"

definition LoadPolicy ::
  "'c Cache \<Rightarrow> 'e Engine \<Rightarrow> ('c, 'e) CachedEnforcer
    \<Rightarrow> error option outcome \<times> ('c, 'e) CachedEnforcer" where
  "LoadPolicy B E e =
     (if enableCache e \<noteq> 0 then
        (case LoadPolicy_loop B [0..<shardPartitions] e of
           (Panic p, e1) \<Rightarrow> (Panic p, e1)
         | (Return (Some err), e1) \<Rightarrow> (Return (Some err), e1)
         | (Return None, e1) \<Rightarrow>
             (case engine_LoadPolicy E e1 of (r, e2) \<Rightarrow> (Return r, e2)))
      else (case engine_LoadPolicy E e of (r, e2) \<Rightarrow> (Return r, e2)))"

definition RemovePolicy ::
  "'c Cache \<Rightarrow> 'e Engine \<Rightarrow> param list \<Rightarrow> ('c, 'e) CachedEnforcer
    \<Rightarrow> (bool \<times> error option) outcome \<times> ('c, 'e) CachedEnforcer" where
  "RemovePolicy B E params e =
     (if enableCache e \<noteq> 0 then
        (case getKey params of
           (key, ok) \<Rightarrow>
             if ok then
               (let idx = getShardIdx key in
                case shard_Delete B idx key e of
                  (Panic p, e1) \<Rightarrow> (Panic p, e1)
                | (Return err, e1) \<Rightarrow>
                    if err \<noteq> None \<and> err \<noteq> Some ErrNoSuchKey then (Return (False, err), e1)
                    else (case engine_RemovePolicy E params e1 of (r, e2) \<Rightarrow> (Return r, e2)))
             else (case engine_RemovePolicy E params e of (r, e2) \<Rightarrow> (Return r, e2)))
      else (case engine_RemovePolicy E params e of (r, e2) \<Rightarrow> (Return r, e2)))"

text \<open>The inner loop of \<^verbatim>\<open>RemovePolicies\<close>: \<^verbatim>\<open>irule[i] = param\<close> for the parameters of
  one rule from position \<open>i\<close> on. The assignment panics once \<open>i\<close> reaches the length that
  \<^verbatim>\<open>irule\<close> was made with.\<close>

fun copy_rule :: "param list \<Rightarrow> nat \<Rightarrow> string list \<Rightarrow> param list outcome" where
  "copy_rule irule i [] = Return irule"
| "copy_rule irule i (p # ps) =
     (if i < length irule then copy_rule (irule[i := String p]) (Suc i) ps
      else Panic (IndexOutOfRange i (length irule)))"

text \<open>The outer loop: \<^verbatim>\<open>irule\<close> is declared before it and lives across the iterations; the
  second result of \<^verbatim>\<open>getKey\<close> is dropped.\<close>

fun RemovePolicies_loop ::
  "'c Cache \<Rightarrow> param list \<Rightarrow> string list list \<Rightarrow> ('c, 'e) CachedEnforcer
    \<Rightarrow> error option outcome \<times> ('c, 'e) CachedEnforcer" where
  "RemovePolicies_loop B irule [] e = (Return None, e)"
| "RemovePolicies_loop B irule (rule # rules) e =
     (case copy_rule irule 0 rule of
        Panic p \<Rightarrow> (Panic p, e)
      | Return irule' \<Rightarrow>
          (let key = fst (getKey irule'); idx = getShardIdx key in
           case shard_Delete B idx key e of
             (Panic p, e1) \<Rightarrow> (Panic p, e1)
           | (Return err, e1) \<Rightarrow>
               if err \<noteq> None \<and> err \<noteq> Some ErrNoSuchKey then (Return err, e1)
               else RemovePolicies_loop B irule' rules e1))"

definition RemovePolicies ::
  "'c Cache \<Rightarrow> 'e Engine \<Rightarrow> string list list \<Rightarrow> ('c, 'e) CachedEnforcer
    \<Rightarrow> (bool \<times> error option) outcome \<times> ('c, 'e) CachedEnforcer" where
  "RemovePolicies B E rules e =
     (if length rules \<noteq> 0 then
        (if enableCache e \<noteq> 0 then
           (case RemovePolicies_loop B (replicate (length (hd rules)) NilValue) rules e of
              (Panic p, e1) \<Rightarrow> (Panic p, e1)
            | (Return (Some err), e1) \<Rightarrow> (Return (False, Some err), e1)
            | (Return None, e1) \<Rightarrow>
                (case engine_RemovePolicies E rules e1 of (r, e2) \<Rightarrow> (Return r, e2)))
         else (case engine_RemovePolicies E rules e of (r, e2) \<Rightarrow> (Return r, e2)))
      else (case engine_RemovePolicies E rules e of (r, e2) \<Rightarrow> (Return r, e2)))"

text \<open>The loop of \<^verbatim>\<open>InvalidateCache\<close>. \<open>ds\<close> is the stack of deferred unlocks, the last
  pushed first; they run when the function is left, whichever way.\<close>

fun InvalidateCache_loop ::
  "'c Cache \<Rightarrow> nat list \<Rightarrow> nat list \<Rightarrow> ('c, 'e) CachedEnforcer
    \<Rightarrow> error option outcome \<times> nat list \<times> ('c, 'e) CachedEnforcer" where
  "InvalidateCache_loop B [] ds e = (Return None, ds, e)"
| "InvalidateCache_loop B (i # is) ds e =
     (if i < length (locker e) then
        (case shard_Clear B i (record_call (EvLock i) e) of
           (Panic p, e1) \<Rightarrow> (Panic p, i # ds, e1)
         | (Return err, e1) \<Rightarrow>
             if err \<noteq> None then (Return err, i # ds, e1)
             else InvalidateCache_loop B is (i # ds) e1)
      else (Panic (IndexOutOfRange i (length (locker e))), ds, e))"

definition run_deferred :: "nat list \<Rightarrow> ('c, 'e) CachedEnforcer \<Rightarrow> ('c, 'e) CachedEnforcer" where
  "run_deferred ds e = e\<lparr>calls := calls e @ map EvUnlock ds\<rparr>"

definition InvalidateCache ::
  "'c Cache \<Rightarrow> ('c, 'e) CachedEnforcer \<Rightarrow> error option outcome \<times> ('c, 'e) CachedEnforcer" where
  "InvalidateCache B e =
     (case InvalidateCache_loop B [0..<shardPartitions] [] e of
        (r, ds, e1) \<Rightarrow> (r, run_deferred ds e1))"

subsection \<open>Construction and the default backend\<close>

text \<open>
  Modelled from the spec: \<^verbatim>\<open>cache.DefaultCache\<close>, the backend every shard starts with,
  lives in the package \<^verbatim>\<open>persist/cache\<close>. By the spec's backend capability it is an
  initially empty table of decisions: \<^verbatim>\<open>Get\<close> answers the stored decision or the
  distinguished not-found error, \<^verbatim>\<open>Set\<close> stores (the extra options are ignored),
  \<^verbatim>\<open>Delete\<close> removes the key and reports not-found when it is absent, \<^verbatim>\<open>Clear\<close>
  removes all entries.
\<close>

definition DefaultCache :: "(string \<rightharpoonup> bool) Cache" where
  "DefaultCache =
     \<lparr>cache_Get = (\<lambda>c key. case c key of
                        None \<Rightarrow> ((False, Some ErrNoSuchKey), c)
                      | Some res \<Rightarrow> ((res, None), c)),
      cache_Set = (\<lambda>c key res extra. (None, c(key \<mapsto> res))),
      cache_Delete = (\<lambda>c key. case c key of
                        None \<Rightarrow> (Some ErrNoSuchKey, c)
                      | Some res \<Rightarrow> (None, c(key := None))),
      cache_Clear = (\<lambda>c. (None, Map.empty))\<rparr>"

text \<open>\<^verbatim>\<open>NewCachedEnforcer\<close>, given what \<^verbatim>\<open>NewEnforcer\<close> returned.\<close>

definition NewCachedEnforcer ::
  "error + 'e \<Rightarrow> error + (string \<rightharpoonup> bool, 'e) CachedEnforcer" where
  "NewCachedEnforcer r =
     (case r of
        Inl err \<Rightarrow> Inl err
      | Inr en \<Rightarrow>
          Inr \<lparr>Enforcer = en, expireTime = 0, cache = replicate shardPartitions Map.empty,
               enableCache = 1, locker = replicate shardPartitions RWMutex, calls = []\<rparr>)"

subsection \<open>Concrete collaborators\<close>

text \<open>
  Shards whose backends have different dynamic types, as \<^verbatim>\<open>SetCache\<close> allows: a default
  table; a read-only table, whose reads answer and whose writes fail; a backend out of
  service, whose every operation fails. A failure is an error other than not-found, with
  the message the shard carries, and changes nothing. \<open>StoreCache\<close> dispatches on the shard's type.
\<close>

datatype store =
    Table "string \<rightharpoonup> bool"
  | ReadOnly "string \<rightharpoonup> bool" string
  | Broken string

definition StoreCache :: "store Cache" where
  "StoreCache =
     \<lparr>cache_Get = (\<lambda>c key. case c of
                        Broken msg \<Rightarrow> ((False, Some (ErrOther msg)), c)
                      | ReadOnly m msg \<Rightarrow> (fst (cache_Get DefaultCache m key), c)
                      | Table m \<Rightarrow>
                          (case cache_Get DefaultCache m key of (r, m') \<Rightarrow> (r, Table m'))),
      cache_Set = (\<lambda>c key res extra. case c of
                        Broken msg \<Rightarrow> (Some (ErrOther msg), c)
                      | ReadOnly m msg \<Rightarrow> (Some (ErrOther msg), c)
                      | Table m \<Rightarrow>
                          (case cache_Set DefaultCache m key res extra of
                             (r, m') \<Rightarrow> (r, Table m'))),
      cache_Delete = (\<lambda>c key. case c of
                        Broken msg \<Rightarrow> (Some (ErrOther msg), c)
                      | ReadOnly m msg \<Rightarrow> (Some (ErrOther msg), c)
                      | Table m \<Rightarrow>
                          (case cache_Delete DefaultCache m key of (r, m') \<Rightarrow> (r, Table m'))),
      cache_Clear = (\<lambda>c. case c of
                        Broken msg \<Rightarrow> (Some (ErrOther msg), c)
                      | ReadOnly m msg \<Rightarrow> (Some (ErrOther msg), c)
                      | Table m \<Rightarrow>
                          (case cache_Clear DefaultCache m of (r, m') \<Rightarrow> (r, Table m')))\<rparr>"

text \<open>
  A decision engine over a list of allowed requests: a request is allowed when it is listed.
  With a fault set, every operation fails with it and changes nothing.
\<close>

definition ListEngine :: "error option \<Rightarrow> (param list list) Engine" where
  "ListEngine fault =
     \<lparr>eng_Enforce = (\<lambda>pol rvals. case fault of
                          Some err \<Rightarrow> ((False, Some err), pol)
                        | None \<Rightarrow> ((rvals \<in> set pol, None), pol)),
      eng_LoadPolicy = (\<lambda>pol. (fault, pol)),
      eng_RemovePolicy = (\<lambda>pol params. case fault of
                          Some err \<Rightarrow> ((False, Some err), pol)
                        | None \<Rightarrow> ((params \<in> set pol, None), removeAll params pol)),
      eng_RemovePolicies = (\<lambda>pol rules. case fault of
                          Some err \<Rightarrow> ((False, Some err), pol)
                        | None \<Rightarrow>
                            ((list_all (\<lambda>r. map String r \<in> set pol) rules, None),
                             filter (\<lambda>q. q \<notin> set (map (map String) rules)) pol))\<rparr>"

subsection \<open>Notions used to state the properties\<close>

text \<open>The string form of a parameter, and whether it has one, in the spec's words: a raw
  string is its own form, a parameter with the cache-key capability has that key.\<close>

fun keyable :: "param \<Rightarrow> bool" where
  "keyable (String s) = True"
| "keyable (Cacheable k) = True"
| "keyable _ = False"

fun string_form :: "param \<Rightarrow> string" where
  "string_form (String s) = s"
| "string_form (Cacheable k) = k"
| "string_form _ = []"

text \<open>The key as the spec describes it: every string form followed by the separator.\<close>

definition key_of :: "param list \<Rightarrow> string" where
  "key_of params = concat (map (\<lambda>p. string_form p @ ''$$'') params)"

text \<open>What \<^verbatim>\<open>NewCachedEnforcer\<close> establishes and every method keeps: one backend and one
  mutex per shard.\<close>

definition well_formed :: "('c, 'e) CachedEnforcer \<Rightarrow> bool" where
  "well_formed e \<longleftrightarrow>
     length (cache e) = shardPartitions \<and> length (locker e) = shardPartitions"

text \<open>A concrete enforcer: caching enabled, every shard an empty default table, and an
  engine that allows alice to read data1.\<close>

definition alice :: "param list" where
  "alice = [String ''alice'', String ''data1'', String ''read'']"

definition fresh :: "(store, param list list) CachedEnforcer" where
  "fresh =
     \<lparr>Enforcer = [alice], expireTime = 0, cache = replicate shardPartitions (Table Map.empty),
      enableCache = 1, locker = replicate shardPartitions RWMutex, calls = []\<rparr>"

text \<open>Clearing the shard at one index, and the shards below an index: how the store is
  left when the shards are cleared in turn.\<close>

definition clear_at :: "'c Cache \<Rightarrow> nat \<Rightarrow> 'c list \<Rightarrow> 'c list" where
  "clear_at B i cs = cs[i := snd (cache_Clear B (cs ! i))]"

definition cleared_upto :: "'c Cache \<Rightarrow> nat \<Rightarrow> 'c list \<Rightarrow> 'c list" where
  "cleared_upto B n cs = map (\<lambda>c. snd (cache_Clear B c)) (take n cs) @ drop n cs"

text \<open>
  A backend honours \<^verbatim>\<open>Delete\<close>, with respect to a reading of its state as a table of
  entries, when a delete that returns nil or not-found leaves the table without the key and
  otherwise as it was.
\<close>

definition deletes_exactly :: "'c Cache \<Rightarrow> ('c \<Rightarrow> string \<rightharpoonup> bool) \<Rightarrow> bool" where
  "deletes_exactly B entries \<longleftrightarrow>
     (\<forall>c k. fst (cache_Delete B c k) = None \<or> fst (cache_Delete B c k) = Some ErrNoSuchKey \<longrightarrow>
        entries (snd (cache_Delete B c k)) = (entries c)(k := None))"

fun store_entries :: "store \<Rightarrow> string \<rightharpoonup> bool" where
  "store_entries (Table m) = m"
| "store_entries (ReadOnly m msg) = m"
| "store_entries (Broken msg) = Map.empty"

text \<open>A tuple of raw strings only.\<close>

fun is_string :: "param \<Rightarrow> bool" where
  "is_string (String s) = True"
| "is_string _ = False"

text \<open>
  A backend whose operations succeed, with respect to a reading of its state as a table of
  entries: \<^verbatim>\<open>Get\<close> answers a stored decision without error and reports an absent key
  as not-found, and leaves the entries as they are; \<^verbatim>\<open>Set\<close> returns nil and stores.
\<close>

definition reliable :: "'c Cache \<Rightarrow> ('c \<Rightarrow> string \<rightharpoonup> bool) \<Rightarrow> bool" where
  "reliable B entries \<longleftrightarrow>
     (\<forall>c k. (case entries c k of
                Some v \<Rightarrow> fst (cache_Get B c k) = (v, None)
              | None \<Rightarrow> snd (fst (cache_Get B c k)) = Some ErrNoSuchKey)
             \<and> entries (snd (cache_Get B c k)) = entries c)
     \<and> (\<forall>c k v extra. fst (cache_Set B c k v extra) = None
             \<and> entries (snd (cache_Set B c k v extra)) = (entries c)(k \<mapsto> v))"

text \<open>The number of evaluations by the engine that a log records.\<close>

fun is_evaluation :: "event \<Rightarrow> bool" where
  "is_evaluation (EvEnforce rvals) = True"
| "is_evaluation _ = False"

definition evaluations :: "event list \<Rightarrow> nat" where
  "evaluations evs = length (filter is_evaluation evs)"

text \<open>The enforcer \<^verbatim>\<open>NewCachedEnforcer\<close> returns over the engine that allows alice.\<close>

definition started :: "(string \<rightharpoonup> bool, param list list) CachedEnforcer" where
  "started =
     \<lparr>Enforcer = [alice], expireTime = 0, cache = replicate shardPartitions Map.empty,
      enableCache = 1, locker = replicate shardPartitions RWMutex, calls = []\<rparr>"

text \<open>
  What the buffer \<^verbatim>\<open>irule\<close> holds once a rule that fits has been copied over it: the
  rule's parameters, then whatever the buffer held beyond them. \<open>built_keys\<close> lists the keys
  derived from the buffer rule after rule, and \<open>delete_at\<close> is the effect of one delete on
  the store.
\<close>

definition overwrite :: "param list \<Rightarrow> string list \<Rightarrow> param list" where
  "overwrite irule rule = map String rule @ drop (length rule) irule"

fun built_keys :: "param list \<Rightarrow> string list list \<Rightarrow> string list" where
  "built_keys irule [] = []"
| "built_keys irule (rule # rules) =
     fst (getKey (overwrite irule rule)) # built_keys (overwrite irule rule) rules"

definition delete_at :: "'c Cache \<Rightarrow> string \<Rightarrow> 'c list \<Rightarrow> 'c list" where
  "delete_at B key cs =
     cs[getShardIdx key := snd (cache_Delete B (cs ! getShardIdx key) key)]"

text \<open>The deletes of the given keys, issued in this order on the store, each return nil or
  not-found: none of them ends the call.\<close>

fun deletes_pass :: "'c Cache \<Rightarrow> string list \<Rightarrow> 'c list \<Rightarrow> bool" where
  "deletes_pass B [] cs = True"
| "deletes_pass B (key # keys) cs =
     ((fst (cache_Delete B (cs ! getShardIdx key) key) = None
       \<or> fst (cache_Delete B (cs ! getShardIdx key) key) = Some ErrNoSuchKey)
      \<and> deletes_pass B keys (delete_at B key cs))"

section \<open>Key derivation\<close>

lemma getKey_loop_keyable:
  "list_all keyable params \<Longrightarrow> getKey_loop key params = (key @ key_of params, True)"
proof (induction params arbitrary: key)
  case Nil
  then show ?case by (simp add: key_of_def)
next
  case (Cons p params)
  then show ?case by (cases p) (simp_all add: key_of_def)
qed

lemma getKey_loop_not_keyable:
  "\<not> list_all keyable params \<Longrightarrow> getKey_loop key params = ([], False)"
proof (induction params arbitrary: key)
  case Nil
  then show ?case by simp
next
  case (Cons p params)
  then show ?case by (cases p) simp_all
qed

lemma getKey_keyable: "list_all keyable params \<Longrightarrow> getKey params = (key_of params, True)"
  by (simp add: getKey_def getKey_loop_keyable)

lemma getKey_applicable_iff: "snd (getKey params) \<longleftrightarrow> list_all keyable params"
  by (cases "list_all keyable params")
     (simp_all add: getKey_def getKey_loop_keyable getKey_loop_not_keyable)

text \<open>
  Claim C8. \<^verbatim>\<open>getKey\<close> returns, for a tuple of strings and cache-key-capable parameters,
  the string forms in order, each followed by \<^verbatim>\<open>$$\<close>, with applicable = true; for a
  tuple with any other parameter it returns the empty string and applicable = false. The
  tuple (alice, data1, read) yields \<^verbatim>\<open>alice$$data1$$read$$\<close>.
\<close>

theorem getKey_spec:
  "getKey params =
     (if list_all keyable params then (key_of params, True) else ([], False))
   \<and> getKey [String ''alice'', String ''data1'', String ''read'']
       = (''alice$$data1$$read$$'', True)"
  by (simp add: getKey_def getKey_loop_keyable getKey_loop_not_keyable)

theorem getKey_spec_witness:
  "getKey [String ''sub'', Cacheable ''obj''] = (''sub$$obj$$'', True)
   \<and> getKey [String ''sub'', Other 7, String ''act''] = ([], False)"
  using getKey_spec [of "[String ''sub'', Cacheable ''obj'']"]
    getKey_spec [of "[String ''sub'', Other 7, String ''act'']"]
  by (simp add: key_of_def)

text \<open>
  Claim C3, as stated, fails: the separator is not escaped, so a parameter that contains it
  yields the key of a longer tuple.
\<close>

theorem getKey_collision:
  "snd (getKey [String ''a$$b'']) \<and> snd (getKey [String ''a'', String ''b''])
   \<and> fst (getKey [String ''a$$b'']) = fst (getKey [String ''a'', String ''b''])
   \<and> length [String ''a$$b''] \<noteq> length [String ''a'', String ''b'']"
  by (simp add: getKey_def)

lemma split_at_first:
  "x \<notin> set xs \<Longrightarrow> x \<notin> set xs' \<Longrightarrow> xs @ x # ys = xs' @ x # ys' \<Longrightarrow> xs = xs' \<and> ys = ys'"
proof (induction xs arbitrary: xs')
  case Nil
  then show ?case by (cases xs') auto
next
  case (Cons a xs)
  then show ?case by (cases xs') auto
qed

lemma key_of_inj:
  assumes "\<forall>p \<in> set ps. CHR ''$'' \<notin> set (string_form p)"
    and "\<forall>q \<in> set qs. CHR ''$'' \<notin> set (string_form q)"
    and "key_of ps = key_of qs"
  shows "map string_form ps = map string_form qs"
  using assms
proof (induction ps arbitrary: qs)
  case Nil
  then show ?case by (cases qs) (simp_all add: key_of_def)
next
  case (Cons p ps)
  show ?case
  proof (cases qs)
    case Nil
    with Cons.prems show ?thesis by (simp add: key_of_def)
  next
    case c: (Cons q qs')
    have np: "CHR ''$'' \<notin> set (string_form p)" using Cons.prems(1) by simp
    have nq: "CHR ''$'' \<notin> set (string_form q)" using Cons.prems(2) c by simp
    from Cons.prems(3) c
    have "string_form p @ CHR ''$'' # (CHR ''$'' # key_of ps)
        = string_form q @ CHR ''$'' # (CHR ''$'' # key_of qs')"
      by (simp add: key_of_def)
    then have h: "string_form p = string_form q \<and> CHR ''$'' # key_of ps = CHR ''$'' # key_of qs'"
      using np nq by (rule split_at_first [rotated 2])
    then have "key_of ps = key_of qs'" by simp
    moreover have "\<forall>p \<in> set ps. CHR ''$'' \<notin> set (string_form p)"
      using Cons.prems(1) by simp
    moreover have "\<forall>q \<in> set qs'. CHR ''$'' \<notin> set (string_form q)"
      using Cons.prems(2) c by simp
    ultimately have "map string_form ps = map string_form qs'"
      using Cons.IH [of qs'] by simp
    with h c show ?thesis by simp
  qed
qed

text \<open>
  Claim C3, amended. Over applicable tuples whose string forms contain no \<^verbatim>\<open>$\<close>, equal
  keys force equal lengths and equal string forms at every position.
\<close>

theorem getKey_injective:
  assumes "snd (getKey ps)" and "snd (getKey qs)"
    and "\<forall>p \<in> set ps. CHR ''$'' \<notin> set (string_form p)"
    and "\<forall>q \<in> set qs. CHR ''$'' \<notin> set (string_form q)"
    and "fst (getKey ps) = fst (getKey qs)"
  shows "length ps = length qs \<and> (\<forall>i < length ps. string_form (ps ! i) = string_form (qs ! i))"
proof -
  have kp: "getKey ps = (key_of ps, True)" and kq: "getKey qs = (key_of qs, True)"
    using assms(1,2) by (simp_all add: getKey_applicable_iff getKey_keyable)
  with assms(5) have "key_of ps = key_of qs" by simp
  then have m: "map string_form ps = map string_form qs"
    using assms(3,4) by (rule key_of_inj [rotated 2])
  then have l: "length ps = length qs" by (rule map_eq_imp_length_eq)
  moreover have "\<forall>i < length ps. string_form (ps ! i) = string_form (qs ! i)"
  proof (intro allI impI)
    fix i assume "i < length ps"
    with l have "map string_form ps ! i = string_form (ps ! i)"
      and "map string_form qs ! i = string_form (qs ! i)" by simp_all
    with m show "string_form (ps ! i) = string_form (qs ! i)" by simp
  qed
  ultimately show ?thesis by simp
qed

theorem getKey_injective_witness:
  "snd (getKey [String ''alice'', Cacheable ''data1''])
   \<and> fst (getKey [String ''alice'', Cacheable ''data1''])
       = fst (getKey [Cacheable ''alice'', String ''data1''])
   \<and> length [String ''alice'', Cacheable ''data1''] = length [Cacheable ''alice'', String ''data1'']
   \<and> string_form ([String ''alice'', Cacheable ''data1''] ! 0)
       = string_form ([Cacheable ''alice'', String ''data1''] ! 0)
   \<and> string_form ([String ''alice'', Cacheable ''data1''] ! 1)
       = string_form ([Cacheable ''alice'', String ''data1''] ! 1)"
proof -
  have a: "snd (getKey [String ''alice'', Cacheable ''data1''])"
    and b: "snd (getKey [Cacheable ''alice'', String ''data1''])"
    and c: "\<forall>p \<in> set [String ''alice'', Cacheable ''data1'']. CHR ''$'' \<notin> set (string_form p)"
    and d: "\<forall>q \<in> set [Cacheable ''alice'', String ''data1'']. CHR ''$'' \<notin> set (string_form q)"
    and e: "fst (getKey [String ''alice'', Cacheable ''data1''])
          = fst (getKey [Cacheable ''alice'', String ''data1''])"
    by (simp_all add: getKey_def)
  from getKey_injective [OF a b c d e] a e show ?thesis by simp
qed

section \<open>Enforce\<close>

lemma getShardIdx_less: "getShardIdx key < shardPartitions"
  by (simp add: getShardIdx_def shardPartitions_def)

lemma getShardIdx_alice: "getShardIdx ''alice$$data1$$read$$'' = 2"
  by (simp add: getShardIdx_def fnv32a_def shardPartitions_def)

lemma getKey_alice: "getKey alice = (''alice$$data1$$read$$'', True)"
  by (simp add: getKey_def alice_def)

lemma well_formed_fresh: "well_formed fresh"
  by (simp add: well_formed_def fresh_def)

lemma replicate_update_same: "(replicate n x)[i := x] = replicate n x"
  by (induction n arbitrary: i) (simp_all split: nat.split)

lemma getCachedResult_eq:
  assumes "well_formed e" and "cache_Get B (cache e ! getShardIdx key) key = (r, c')"
  shows "getCachedResult B key e =
     (Return r, e\<lparr>cache := (cache e)[getShardIdx key := c'],
        calls := calls e @ [EvRLock (getShardIdx key), EvGet (getShardIdx key) key,
                            EvRUnlock (getShardIdx key)]\<rparr>)"
  using assms getShardIdx_less [of key]
  by (simp add: getCachedResult_def shard_Get_def record_call_def well_formed_def Let_def)

lemma setCachedResult_eq:
  assumes "well_formed e" and "cache_Set B (cache e ! getShardIdx key) key res extra = (r, c')"
  shows "setCachedResult B key res extra e =
     (Return r, e\<lparr>cache := (cache e)[getShardIdx key := c'],
        calls := calls e @ [EvLock (getShardIdx key), EvSet (getShardIdx key) key res extra,
                            EvUnlock (getShardIdx key)]\<rparr>)"
  using assms getShardIdx_less [of key]
  by (simp add: setCachedResult_def shard_Set_def record_call_def well_formed_def Let_def)

text \<open>
  Claim C9. With the enable-cache flag at 0, \<^verbatim>\<open>Enforce\<close> returns exactly the pair the
  engine returns, and the only call it makes is that one evaluation: no backend is read or
  written, and every shard is as it was.
\<close>

theorem Enforce_disabled:
  assumes "enableCache e = 0"
  shows "Enforce B E rvals e =
     (Return (fst (eng_Enforce E (Enforcer e) rvals)),
      e\<lparr>Enforcer := snd (eng_Enforce E (Enforcer e) rvals),
        calls := calls e @ [EvEnforce rvals]\<rparr>)
    \<and> cache (snd (Enforce B E rvals e)) = cache e"
  using assms by (simp add: Enforce_def engine_Enforce_def split: prod.splits)

theorem Enforce_disabled_witness:
  "enableCache (EnableCache False fresh) = 0
   \<and> Enforce StoreCache (ListEngine None) alice (EnableCache False fresh)
     = (Return (True, None), (EnableCache False fresh)\<lparr>calls := [EvEnforce alice]\<rparr>)"
  using Enforce_disabled [of "EnableCache False fresh" StoreCache "ListEngine None" alice]
  by (simp add: EnableCache_def fresh_def ListEngine_def)

text \<open>
  Claim C7. With caching enabled and an applicable key, a lookup that fails with an error
  other than not-found makes \<^verbatim>\<open>Enforce\<close> return the backend's pair with that error. The
  calls made are the read lock, the lookup and the unlock: the engine is not invoked,
  nothing is written to a backend, and the shard holds what the lookup itself left.
\<close>

theorem Enforce_backend_failure:
  assumes "enableCache e \<noteq> 0" and "well_formed e" and "getKey rvals = (key, True)"
    and "cache_Get B (cache e ! getShardIdx key) key = ((res, Some err), c')"
    and "err \<noteq> ErrNoSuchKey"
  shows "Enforce B E rvals e =
     (Return (res, Some err),
      e\<lparr>cache := (cache e)[getShardIdx key := c'],
        calls := calls e @ [EvRLock (getShardIdx key), EvGet (getShardIdx key) key,
                            EvRUnlock (getShardIdx key)]\<rparr>)"
  using assms by (simp add: Enforce_def getCachedResult_eq)

theorem Enforce_backend_failure_witness:
  "Enforce StoreCache (ListEngine None) alice
     (fresh\<lparr>cache := (cache fresh)[2 := Broken ''unreachable'']\<rparr>)
   = (Return (False, Some (ErrOther ''unreachable'')),
      fresh\<lparr>cache := (cache fresh)[2 := Broken ''unreachable''],
        calls := [EvRLock 2, EvGet 2 ''alice$$data1$$read$$'', EvRUnlock 2]\<rparr>)"
proof -
  let ?e = "fresh\<lparr>cache := (cache fresh)[2 := Broken ''unreachable'']\<rparr>"
  let ?key = "''alice$$data1$$read$$''"
  have a: "enableCache ?e \<noteq> 0" by (simp add: fresh_def)
  have b: "well_formed ?e" by (simp add: well_formed_def fresh_def)
  have c: "cache_Get StoreCache (cache ?e ! getShardIdx ?key) ?key
         = ((False, Some (ErrOther ''unreachable'')), Broken ''unreachable'')"
    by (simp add: getShardIdx_alice fresh_def shardPartitions_def StoreCache_def)
  have d: "ErrOther ''unreachable'' \<noteq> ErrNoSuchKey" by simp
  from Enforce_backend_failure [OF a b getKey_alice c d, of "ListEngine None"]
  show ?thesis by (simp add: getShardIdx_alice fresh_def)
qed

lemma Enforce_on_miss:
  assumes "enableCache e \<noteq> 0" and "well_formed e" and "getKey rvals = (key, True)"
    and "cache_Get B (cache e ! getShardIdx key) key = ((r0, Some ErrNoSuchKey), c1)"
    and "eng_Enforce E (Enforcer e) rvals = ((res, eerr), en')"
    and "cache_Set B c1 key res [expireTime e] = (serr, c2)"
  shows "Enforce B E rvals e =
     (if eerr \<noteq> None then
        (Return (False, eerr),
         e\<lparr>Enforcer := en', cache := (cache e)[getShardIdx key := c1],
           calls := calls e @ [EvRLock (getShardIdx key), EvGet (getShardIdx key) key,
                               EvRUnlock (getShardIdx key), EvEnforce rvals]\<rparr>)
      else
        (Return (res, serr),
         e\<lparr>Enforcer := en', cache := (cache e)[getShardIdx key := c2],
           calls := calls e @ [EvRLock (getShardIdx key), EvGet (getShardIdx key) key,
                               EvRUnlock (getShardIdx key), EvEnforce rvals,
                               EvLock (getShardIdx key),
                               EvSet (getShardIdx key) key res [expireTime e],
                               EvUnlock (getShardIdx key)]\<rparr>))"
proof -
  let ?i = "getShardIdx key"
  let ?e1 = "e\<lparr>cache := (cache e)[?i := c1],
        calls := calls e @ [EvRLock ?i, EvGet ?i key, EvRUnlock ?i]\<rparr>"
  let ?e2 = "?e1\<lparr>Enforcer := en', calls := calls ?e1 @ [EvEnforce rvals]\<rparr>"
  have i: "?i < length (cache e)"
    using assms(2) getShardIdx_less [of key] by (simp add: well_formed_def)
  have g: "getCachedResult B key e = (Return (r0, Some ErrNoSuchKey), ?e1)"
    using assms(2,4) by (rule getCachedResult_eq)
  have en: "engine_Enforce E rvals ?e1 = ((res, eerr), ?e2)"
    using assms(5) by (simp add: engine_Enforce_def)
  have wf2: "well_formed ?e2" using assms(2) by (simp add: well_formed_def)
  have "cache_Set B (cache ?e2 ! ?i) key res [expireTime ?e2] = (serr, c2)"
    using assms(6) i by simp
  with wf2 have s: "setCachedResult B key res [expireTime ?e2] ?e2 =
     (Return serr, ?e2\<lparr>cache := (cache ?e2)[?i := c2],
        calls := calls ?e2 @ [EvLock ?i, EvSet ?i key res [expireTime ?e2], EvUnlock ?i]\<rparr>)"
    by (rule setCachedResult_eq)
  show ?thesis
  proof (cases "eerr = None")
    case True
    with assms(1,3) g en s show ?thesis by (simp add: Enforce_def)
  next
    case False
    with assms(1,3) g en show ?thesis by (simp add: Enforce_def)
  qed
qed

text \<open>
  Claim C4. With caching enabled and an applicable key, when the lookup reports not-found
  the engine is invoked. If it returns an error, \<^verbatim>\<open>Enforce\<close> returns false with that
  error and no \<^verbatim>\<open>Set\<close> is issued. If it succeeds, the decision is stored under the key
  with the expiry time, and \<^verbatim>\<open>Enforce\<close> returns the decision together with whatever
  error the \<^verbatim>\<open>Set\<close> returned: a failed store reaches the caller as a non-nil error.
\<close>

theorem Enforce_miss:
  assumes "enableCache e \<noteq> 0" and "well_formed e" and "getKey rvals = (key, True)"
    and "cache_Get B (cache e ! getShardIdx key) key = ((r0, Some ErrNoSuchKey), c1)"
    and "eng_Enforce E (Enforcer e) rvals = ((res, eerr), en')"
    and "cache_Set B c1 key res [expireTime e] = (serr, c2)"
  shows "Enforce B E rvals e =
     (if eerr \<noteq> None then
        (Return (False, eerr),
         e\<lparr>Enforcer := en', cache := (cache e)[getShardIdx key := c1],
           calls := calls e @ [EvRLock (getShardIdx key), EvGet (getShardIdx key) key,
                               EvRUnlock (getShardIdx key), EvEnforce rvals]\<rparr>)
      else
        (Return (res, serr),
         e\<lparr>Enforcer := en', cache := (cache e)[getShardIdx key := c2],
           calls := calls e @ [EvRLock (getShardIdx key), EvGet (getShardIdx key) key,
                               EvRUnlock (getShardIdx key), EvEnforce rvals,
                               EvLock (getShardIdx key),
                               EvSet (getShardIdx key) key res [expireTime e],
                               EvUnlock (getShardIdx key)]\<rparr>))"
  using assms by (rule Enforce_on_miss)

theorem Enforce_miss_witness:
  "Enforce StoreCache (ListEngine (Some (ErrOther ''no model''))) alice fresh
   = (Return (False, Some (ErrOther ''no model'')),
      fresh\<lparr>calls := [EvRLock 2, EvGet 2 ''alice$$data1$$read$$'', EvRUnlock 2,
                       EvEnforce alice]\<rparr>)
   \<and> Enforce StoreCache (ListEngine None) alice
       (fresh\<lparr>cache := (cache fresh)[2 := ReadOnly Map.empty ''read only'']\<rparr>)
   = (Return (True, Some (ErrOther ''read only'')),
      fresh\<lparr>cache := (cache fresh)[2 := ReadOnly Map.empty ''read only''],
        calls := [EvRLock 2, EvGet 2 ''alice$$data1$$read$$'', EvRUnlock 2,
                  EvEnforce alice, EvLock 2, EvSet 2 ''alice$$data1$$read$$'' True [0],
                  EvUnlock 2]\<rparr>)"
proof -
  let ?key = "''alice$$data1$$read$$''"
  let ?ro = "ReadOnly Map.empty ''read only''"
  let ?e = "fresh\<lparr>cache := (cache fresh)[2 := ?ro]\<rparr>"
  have a: "enableCache fresh \<noteq> 0" and a': "enableCache ?e \<noteq> 0" by (simp_all add: fresh_def)
  have b': "well_formed ?e" by (simp add: well_formed_def fresh_def)
  have c: "cache_Get StoreCache (cache fresh ! getShardIdx ?key) ?key
         = ((False, Some ErrNoSuchKey), Table Map.empty)"
    by (simp add: getShardIdx_alice fresh_def shardPartitions_def StoreCache_def
        DefaultCache_def)
  have c': "cache_Get StoreCache (cache ?e ! getShardIdx ?key) ?key
         = ((False, Some ErrNoSuchKey), ?ro)"
    by (simp add: getShardIdx_alice fresh_def shardPartitions_def StoreCache_def
        DefaultCache_def)
  have d: "eng_Enforce (ListEngine (Some (ErrOther ''no model''))) (Enforcer fresh) alice
         = ((False, Some (ErrOther ''no model'')), [alice])"
    by (simp add: ListEngine_def fresh_def)
  have d': "eng_Enforce (ListEngine None) (Enforcer ?e) alice = ((True, None), [alice])"
    by (simp add: ListEngine_def fresh_def)
  have s: "cache_Set StoreCache (Table Map.empty) ?key False [expireTime fresh]
         = (None, Table [?key \<mapsto> False])"
    by (simp add: StoreCache_def DefaultCache_def)
  have s': "cache_Set StoreCache ?ro ?key True [expireTime ?e]
         = (Some (ErrOther ''read only''), ?ro)"
    by (simp add: StoreCache_def)
  from Enforce_miss [OF a well_formed_fresh getKey_alice c d s]
    Enforce_miss [OF a' b' getKey_alice c' d' s']
  show ?thesis
    by (simp add: getShardIdx_alice fresh_def shardPartitions_def replicate_update_same)
qed

section \<open>Clearing the shards: LoadPolicy and InvalidateCache\<close>

lemma length_fold_clear_at [simp]: "length (fold (clear_at B) is cs) = length cs"
  by (induction "is" arbitrary: cs) (simp_all add: clear_at_def)

lemma fold_clear_at_other: "j \<notin> set is \<Longrightarrow> fold (clear_at B) is cs ! j = cs ! j"
  by (induction "is" arbitrary: cs) (auto simp: clear_at_def)

lemma fold_clear_at_upto:
  "n \<le> length cs \<Longrightarrow> fold (clear_at B) [0..<n] cs = cleared_upto B n cs"
proof (induction n)
  case 0
  then show ?case by (simp add: cleared_upto_def)
next
  case (Suc n)
  then have n: "n < length cs" by simp
  have d: "drop n cs = cs ! n # drop (Suc n) cs"
    using n by (simp add: Cons_nth_drop_Suc)
  have t: "take (Suc n) cs = take n cs @ [cs ! n]"
    using n by (simp add: take_Suc_conv_app_nth)
  have l: "length (map (\<lambda>c. snd (cache_Clear B c)) (take n cs)) = n" using n by simp
  have "fold (clear_at B) [0..<Suc n] cs = clear_at B n (cleared_upto B n cs)"
    using Suc by simp
  also have "\<dots> = cleared_upto B (Suc n) cs"
    unfolding cleared_upto_def clear_at_def t d
    using l by (simp add: nth_append list_update_append)
  finally show ?case .
qed

lemma length_clear_at [simp]: "length (clear_at B i cs) = length cs"
  by (simp add: clear_at_def)

lemma clear_at_nth_other: "j \<noteq> i \<Longrightarrow> clear_at B i cs ! j = cs ! j"
  by (simp add: clear_at_def)

lemma clear_at_preserves:
  assumes "i \<notin> set is"
    and "\<forall>j \<in> set is. j < length cs \<and> P (cs ! j)"
  shows "\<forall>j \<in> set is. j < length (clear_at B i cs) \<and> P (clear_at B i cs ! j)"
proof
  fix j assume j: "j \<in> set is"
  with assms(1) have "j \<noteq> i" by auto
  with assms(2) j show "j < length (clear_at B i cs) \<and> P (clear_at B i cs ! j)"
    by (simp add: clear_at_nth_other)
qed

lemma shard_Clear_eq:
  "i < length (cache e) \<Longrightarrow>
   shard_Clear B i e =
     (Return (fst (cache_Clear B (cache e ! i))),
      e\<lparr>cache := clear_at B i (cache e), calls := calls e @ [EvClear i]\<rparr>)"
  by (simp add: shard_Clear_def clear_at_def case_prod_unfold)

lemma LoadPolicy_loop_ok:
  assumes "distinct is"
    and "\<forall>i \<in> set is. i < length (cache e) \<and> fst (cache_Clear B (cache e ! i)) = None"
  shows "LoadPolicy_loop B is e =
     (Return None, e\<lparr>cache := fold (clear_at B) is (cache e), calls := calls e @ map EvClear is\<rparr>)"
  using assms
proof (induction "is" arbitrary: e)
  case Nil
  then show ?case by simp
next
  case (Cons i "is")
  let ?e1 = "e\<lparr>cache := clear_at B i (cache e), calls := calls e @ [EvClear i]\<rparr>"
  have c: "shard_Clear B i e = (Return None, ?e1)"
    using Cons.prems(2) by (simp add: shard_Clear_eq)
  have "\<forall>j \<in> set is. j < length (cache ?e1) \<and> fst (cache_Clear B (cache ?e1 ! j)) = None"
    using clear_at_preserves [of i "is" "cache e" "\<lambda>c. fst (cache_Clear B c) = None" B]
      Cons.prems by simp
  with Cons.prems(1) have "LoadPolicy_loop B is ?e1 =
     (Return None, ?e1\<lparr>cache := fold (clear_at B) is (cache ?e1),
        calls := calls ?e1 @ map EvClear is\<rparr>)"
    using Cons.IH [of ?e1] by simp
  with c show ?case by simp
qed

lemma LoadPolicy_loop_fail:
  assumes "distinct (pre @ [k])"
    and "\<forall>i \<in> set pre. i < length (cache e) \<and> fst (cache_Clear B (cache e ! i)) = None"
    and "k < length (cache e)" and "fst (cache_Clear B (cache e ! k)) = Some err"
  shows "LoadPolicy_loop B (pre @ k # rest) e =
     (Return (Some err),
      e\<lparr>cache := fold (clear_at B) (pre @ [k]) (cache e),
        calls := calls e @ map EvClear (pre @ [k])\<rparr>)"
  using assms
proof (induction pre arbitrary: e)
  case Nil
  then show ?case by (simp add: shard_Clear_eq)
next
  case (Cons i pre)
  let ?e1 = "e\<lparr>cache := clear_at B i (cache e), calls := calls e @ [EvClear i]\<rparr>"
  have c: "shard_Clear B i e = (Return None, ?e1)"
    using Cons.prems(2) by (simp add: shard_Clear_eq)
  have 1: "distinct (pre @ [k])" using Cons.prems(1) by simp
  have 2: "\<forall>j \<in> set pre. j < length (cache ?e1) \<and> fst (cache_Clear B (cache ?e1 ! j)) = None"
    using clear_at_preserves [of i pre "cache e" "\<lambda>c. fst (cache_Clear B c) = None" B]
      Cons.prems by simp
  have 3: "k < length (cache ?e1)" using Cons.prems(3) by simp
  have "k \<noteq> i" using Cons.prems(1) by auto
  then have 4: "fst (cache_Clear B (cache ?e1 ! k)) = Some err"
    using Cons.prems(4) by (simp add: clear_at_nth_other)
  from Cons.IH [OF 1 2 3 4] c show ?case by simp
qed


lemma cleared_upto_all: "length cs \<le> n \<Longrightarrow> cleared_upto B n cs = map (\<lambda>c. snd (cache_Clear B c)) cs"
  by (simp add: cleared_upto_def)

lemma cleared_upto_beyond: "n \<le> j \<Longrightarrow> j < length cs \<Longrightarrow> cleared_upto B n cs ! j = cs ! j"
  by (simp add: cleared_upto_def nth_append)

lemma LoadPolicy_disabled:
  "enableCache e = 0 \<Longrightarrow>
   LoadPolicy B E e =
     (Return (fst (eng_LoadPolicy E (Enforcer e))),
      e\<lparr>Enforcer := snd (eng_LoadPolicy E (Enforcer e)), calls := calls e @ [EvLoadPolicy]\<rparr>)"
  by (simp add: LoadPolicy_def engine_LoadPolicy_def case_prod_unfold)

lemma LoadPolicy_all_cleared:
  assumes "enableCache e \<noteq> 0" and "well_formed e"
    and "\<forall>i < shardPartitions. fst (cache_Clear B (cache e ! i)) = None"
  shows "LoadPolicy B E e =
     (Return (fst (eng_LoadPolicy E (Enforcer e))),
      e\<lparr>Enforcer := snd (eng_LoadPolicy E (Enforcer e)),
        cache := map (\<lambda>c. snd (cache_Clear B c)) (cache e),
        calls := calls e @ map EvClear [0..<shardPartitions] @ [EvLoadPolicy]\<rparr>)"
proof -
  have l: "length (cache e) = shardPartitions" using assms(2) by (simp add: well_formed_def)
  have "\<forall>i \<in> set [0..<shardPartitions].
          i < length (cache e) \<and> fst (cache_Clear B (cache e ! i)) = None"
    using assms(3) l by simp
  then have "LoadPolicy_loop B [0..<shardPartitions] e =
     (Return None, e\<lparr>cache := fold (clear_at B) [0..<shardPartitions] (cache e),
        calls := calls e @ map EvClear [0..<shardPartitions]\<rparr>)"
    by (intro LoadPolicy_loop_ok) simp_all
  moreover have "fold (clear_at B) [0..<shardPartitions] (cache e)
      = map (\<lambda>c. snd (cache_Clear B c)) (cache e)"
    using l by (simp add: fold_clear_at_upto cleared_upto_all)
  ultimately show ?thesis
    using assms(1) by (simp add: LoadPolicy_def engine_LoadPolicy_def case_prod_unfold)
qed

lemma upt_split_at: "k < n \<Longrightarrow> [0..<n] = [0..<k] @ k # [Suc k..<n]"
  by (metis le_add1 less_imp_add_positive plus_nat.add_0 upt_add_eq_append upt_conv_Cons)

lemma LoadPolicy_first_failure:
  assumes "enableCache e \<noteq> 0" and "well_formed e" and "k < shardPartitions"
    and "fst (cache_Clear B (cache e ! k)) = Some err"
    and "\<forall>i < k. fst (cache_Clear B (cache e ! i)) = None"
  shows "LoadPolicy B E e =
     (Return (Some err),
      e\<lparr>cache := cleared_upto B (Suc k) (cache e), calls := calls e @ map EvClear [0..<Suc k]\<rparr>)"
proof -
  have l: "length (cache e) = shardPartitions" using assms(2) by (simp add: well_formed_def)
  have s: "[0..<shardPartitions] = [0..<k] @ k # [Suc k..<shardPartitions]"
    using assms(3) by (rule upt_split_at)
  have "\<forall>i \<in> set [0..<k]. i < length (cache e) \<and> fst (cache_Clear B (cache e ! i)) = None"
    using assms(3,5) l by simp
  moreover have "distinct ([0..<k] @ [k])" by simp
  moreover have "k < length (cache e)" using assms(3) l by simp
  ultimately have "LoadPolicy_loop B ([0..<k] @ k # [Suc k..<shardPartitions]) e =
     (Return (Some err),
      e\<lparr>cache := fold (clear_at B) ([0..<k] @ [k]) (cache e),
        calls := calls e @ map EvClear ([0..<k] @ [k])\<rparr>)"
    using assms(4) by (intro LoadPolicy_loop_fail) simp_all
  moreover have "fold (clear_at B) ([0..<k] @ [k]) (cache e) = cleared_upto B (Suc k) (cache e)"
    using fold_clear_at_upto [of "Suc k" "cache e" B] assms(3) l by simp
  ultimately show ?thesis using assms(1) s by (simp add: LoadPolicy_def)
qed


lemma calls_fresh: "calls fresh = []"
  by (simp add: fresh_def)

lemma cache_fresh_nth: "i < 32 \<Longrightarrow> cache fresh ! i = Table Map.empty"
  by (simp add: fresh_def shardPartitions_def)

text \<open>
  Claim C6. With caching disabled \<^verbatim>\<open>LoadPolicy\<close> only delegates. With caching enabled it
  clears the shards in index order; when every clear succeeds, all shards have been cleared
  before the engine reloads, and the engine's result is returned; when the clear of shard
  \<open>k\<close> is the first to fail, that error is returned, the shards after \<open>k\<close> are not touched,
  and the engine's reload is not invoked.
\<close>

theorem LoadPolicy_spec:
  assumes "well_formed e"
  shows "(enableCache e = 0 \<longrightarrow>
            LoadPolicy B E e =
              (Return (fst (eng_LoadPolicy E (Enforcer e))),
               e\<lparr>Enforcer := snd (eng_LoadPolicy E (Enforcer e)),
                 calls := calls e @ [EvLoadPolicy]\<rparr>))
       \<and> (enableCache e \<noteq> 0
            \<and> (\<forall>i < shardPartitions. fst (cache_Clear B (cache e ! i)) = None) \<longrightarrow>
            LoadPolicy B E e =
              (Return (fst (eng_LoadPolicy E (Enforcer e))),
               e\<lparr>Enforcer := snd (eng_LoadPolicy E (Enforcer e)),
                 cache := map (\<lambda>c. snd (cache_Clear B c)) (cache e),
                 calls := calls e @ map EvClear [0..<shardPartitions] @ [EvLoadPolicy]\<rparr>))
       \<and> (\<forall>k err. enableCache e \<noteq> 0 \<and> k < shardPartitions
            \<and> fst (cache_Clear B (cache e ! k)) = Some err
            \<and> (\<forall>i < k. fst (cache_Clear B (cache e ! i)) = None) \<longrightarrow>
            LoadPolicy B E e =
              (Return (Some err),
               e\<lparr>cache := cleared_upto B (Suc k) (cache e),
                 calls := calls e @ map EvClear [0..<Suc k]\<rparr>))"
  using assms LoadPolicy_disabled [of e B E] LoadPolicy_all_cleared [of e B E]
    LoadPolicy_first_failure [of e _ B _ E]
  by blast

theorem LoadPolicy_spec_witness:
  "LoadPolicy StoreCache (ListEngine None) (EnableCache False fresh)
     = (Return None, (EnableCache False fresh)\<lparr>calls := [EvLoadPolicy]\<rparr>)
   \<and> fst (LoadPolicy StoreCache (ListEngine None) fresh) = Return None
   \<and> calls (snd (LoadPolicy StoreCache (ListEngine None) fresh))
       = map EvClear [0..<shardPartitions] @ [EvLoadPolicy]
   \<and> fst (LoadPolicy StoreCache (ListEngine None)
       (fresh\<lparr>cache := (cache fresh)[2 := ReadOnly Map.empty ''read only'']\<rparr>))
     = Return (Some (ErrOther ''read only''))
   \<and> calls (snd (LoadPolicy StoreCache (ListEngine None)
       (fresh\<lparr>cache := (cache fresh)[2 := ReadOnly Map.empty ''read only'']\<rparr>)))
     = [EvClear 0, EvClear 1, EvClear 2]"
proof -
  let ?off = "EnableCache False fresh"
  let ?e = "fresh\<lparr>cache := (cache fresh)[2 := ReadOnly Map.empty ''read only'']\<rparr>"
  have w0: "well_formed ?off" by (simp add: well_formed_def fresh_def EnableCache_def)
  have w2: "well_formed ?e" by (simp add: well_formed_def fresh_def)
  have off: "enableCache ?off = 0" by (simp add: EnableCache_def)
  have on1: "enableCache fresh \<noteq> 0
      \<and> (\<forall>i < shardPartitions. fst (cache_Clear StoreCache (cache fresh ! i)) = None)"
    by (simp add: fresh_def StoreCache_def DefaultCache_def)
  have on2: "enableCache ?e \<noteq> 0 \<and> 2 < shardPartitions
      \<and> fst (cache_Clear StoreCache (cache ?e ! 2)) = Some (ErrOther ''read only'')
      \<and> (\<forall>i < 2. fst (cache_Clear StoreCache (cache ?e ! i)) = None)"
    by (simp add: cache_fresh_nth StoreCache_def DefaultCache_def)
       (simp add: fresh_def shardPartitions_def)
  have u: "[0..<3] = [0, 1, 2]" by (simp add: upt_rec)
  from LoadPolicy_spec [OF w0, of StoreCache "ListEngine None", THEN conjunct1, rule_format, OF off]
    LoadPolicy_spec [OF well_formed_fresh, of StoreCache "ListEngine None",
      THEN conjunct2, THEN conjunct1, rule_format, OF on1]
    LoadPolicy_spec [OF w2, of StoreCache "ListEngine None",
      THEN conjunct2, THEN conjunct2, rule_format, OF on2]
  show ?thesis
    by (simp add: u) (simp add: ListEngine_def fresh_def EnableCache_def)
qed

lemma InvalidateCache_loop_ok:
  assumes "distinct is"
    and "\<forall>i \<in> set is. i < length (cache e) \<and> fst (cache_Clear B (cache e ! i)) = None"
    and "\<forall>i \<in> set is. i < length (locker e)"
  shows "InvalidateCache_loop B is ds e =
     (Return None, rev is @ ds,
      e\<lparr>cache := fold (clear_at B) is (cache e),
        calls := calls e @ concat (map (\<lambda>i. [EvLock i, EvClear i]) is)\<rparr>)"
  using assms
proof (induction "is" arbitrary: e ds)
  case Nil
  then show ?case by simp
next
  case (Cons i "is")
  let ?e1 = "e\<lparr>cache := clear_at B i (cache e), calls := calls e @ [EvLock i, EvClear i]\<rparr>"
  have c: "shard_Clear B i (record_call (EvLock i) e) = (Return None, ?e1)"
    using Cons.prems(2) by (simp add: shard_Clear_eq record_call_def)
  have 2: "\<forall>j \<in> set is. j < length (cache ?e1) \<and> fst (cache_Clear B (cache ?e1 ! j)) = None"
    using clear_at_preserves [of i "is" "cache e" "\<lambda>c. fst (cache_Clear B c) = None" B]
      Cons.prems by simp
  have 3: "\<forall>j \<in> set is. j < length (locker ?e1)" using Cons.prems(3) by simp
  have 1: "distinct is" using Cons.prems(1) by simp
  from Cons.IH [OF 1 2 3, of "i # ds"] c Cons.prems(3) show ?case by simp
qed

lemma InvalidateCache_loop_fail:
  assumes "distinct (pre @ [k])"
    and "\<forall>i \<in> set pre. i < length (cache e) \<and> fst (cache_Clear B (cache e ! i)) = None"
    and "\<forall>i \<in> set (pre @ [k]). i < length (locker e)"
    and "k < length (cache e)" and "fst (cache_Clear B (cache e ! k)) = Some err"
  shows "InvalidateCache_loop B (pre @ k # rest) ds e =
     (Return (Some err), rev (pre @ [k]) @ ds,
      e\<lparr>cache := fold (clear_at B) (pre @ [k]) (cache e),
        calls := calls e @ concat (map (\<lambda>i. [EvLock i, EvClear i]) (pre @ [k]))\<rparr>)"
  using assms
proof (induction pre arbitrary: e ds)
  case Nil
  then show ?case by (simp add: shard_Clear_eq record_call_def)
next
  case (Cons i pre)
  let ?e1 = "e\<lparr>cache := clear_at B i (cache e), calls := calls e @ [EvLock i, EvClear i]\<rparr>"
  have c: "shard_Clear B i (record_call (EvLock i) e) = (Return None, ?e1)"
    using Cons.prems(2) by (simp add: shard_Clear_eq record_call_def)
  have 1: "distinct (pre @ [k])" using Cons.prems(1) by simp
  have 2: "\<forall>j \<in> set pre. j < length (cache ?e1) \<and> fst (cache_Clear B (cache ?e1 ! j)) = None"
    using clear_at_preserves [of i pre "cache e" "\<lambda>c. fst (cache_Clear B c) = None" B]
      Cons.prems by simp
  have 3: "\<forall>j \<in> set (pre @ [k]). j < length (locker ?e1)" using Cons.prems(3) by simp
  have 4: "k < length (cache ?e1)" using Cons.prems(4) by simp
  have "k \<noteq> i" using Cons.prems(1) by auto
  then have 5: "fst (cache_Clear B (cache ?e1 ! k)) = Some err"
    using Cons.prems(5) by (simp add: clear_at_nth_other)
  from Cons.IH [OF 1 2 3 4 5, of "i # ds"] c Cons.prems(3) show ?case by simp
qed

lemma InvalidateCache_first_failure:
  assumes "well_formed e" and "k < shardPartitions"
    and "fst (cache_Clear B (cache e ! k)) = Some err"
    and "\<forall>i < k. fst (cache_Clear B (cache e ! i)) = None"
  shows "InvalidateCache B e =
     (Return (Some err),
      e\<lparr>cache := cleared_upto B (Suc k) (cache e),
        calls := calls e @ concat (map (\<lambda>i. [EvLock i, EvClear i]) [0..<Suc k])
                   @ map EvUnlock (rev [0..<Suc k])\<rparr>)"
proof -
  have l: "length (cache e) = shardPartitions" "length (locker e) = shardPartitions"
    using assms(1) by (simp_all add: well_formed_def)
  have s: "[0..<shardPartitions] = [0..<k] @ k # [Suc k..<shardPartitions]"
    using assms(2) by (rule upt_split_at)
  have "\<forall>i \<in> set [0..<k]. i < length (cache e) \<and> fst (cache_Clear B (cache e ! i)) = None"
    using assms(2,4) l by simp
  moreover have "distinct ([0..<k] @ [k])" by simp
  moreover have "k < length (cache e)" using assms(2) l by simp
  moreover have "\<forall>i \<in> set ([0..<k] @ [k]). i < length (locker e)" using assms(2) l by auto
  ultimately have "InvalidateCache_loop B ([0..<k] @ k # [Suc k..<shardPartitions]) [] e =
     (Return (Some err), rev ([0..<k] @ [k]) @ [],
      e\<lparr>cache := fold (clear_at B) ([0..<k] @ [k]) (cache e),
        calls := calls e @ concat (map (\<lambda>i. [EvLock i, EvClear i]) ([0..<k] @ [k]))\<rparr>)"
    using assms(3) by (intro InvalidateCache_loop_fail) simp_all
  moreover have "fold (clear_at B) ([0..<k] @ [k]) (cache e) = cleared_upto B (Suc k) (cache e)"
    using fold_clear_at_upto [of "Suc k" "cache e" B] assms(2) l by simp
  ultimately show ?thesis using s by (simp add: InvalidateCache_def run_deferred_def)
qed

lemma InvalidateCache_all_cleared:
  assumes "well_formed e"
    and "\<forall>i < shardPartitions. fst (cache_Clear B (cache e ! i)) = None"
  shows "InvalidateCache B e =
     (Return None,
      e\<lparr>cache := map (\<lambda>c. snd (cache_Clear B c)) (cache e),
        calls := calls e @ concat (map (\<lambda>i. [EvLock i, EvClear i]) [0..<shardPartitions])
                   @ map EvUnlock (rev [0..<shardPartitions])\<rparr>)"
proof -
  have l: "length (cache e) = shardPartitions" "length (locker e) = shardPartitions"
    using assms(1) by (simp_all add: well_formed_def)
  have "\<forall>i \<in> set [0..<shardPartitions].
          i < length (cache e) \<and> fst (cache_Clear B (cache e ! i)) = None"
    using assms(2) l by simp
  moreover have "\<forall>i \<in> set [0..<shardPartitions]. i < length (locker e)" using l by simp
  ultimately have "InvalidateCache_loop B [0..<shardPartitions] [] e =
     (Return None, rev [0..<shardPartitions] @ [],
      e\<lparr>cache := fold (clear_at B) [0..<shardPartitions] (cache e),
        calls := calls e @ concat (map (\<lambda>i. [EvLock i, EvClear i]) [0..<shardPartitions])\<rparr>)"
    by (intro InvalidateCache_loop_ok) simp_all
  moreover have "fold (clear_at B) [0..<shardPartitions] (cache e)
      = map (\<lambda>c. snd (cache_Clear B c)) (cache e)"
    using l by (simp add: fold_clear_at_upto cleared_upto_all)
  ultimately show ?thesis by (simp add: InvalidateCache_def run_deferred_def)
qed

text \<open>
  Claim C2, as stated, fails: \<^verbatim>\<open>InvalidateCache\<close> returns from inside the loop at the
  first failing clear. With shard 0 out of service the clear of shard 1 is never invoked.
\<close>

theorem InvalidateCache_skips_later_shards:
  "fst (InvalidateCache StoreCache (fresh\<lparr>cache := (cache fresh)[0 := Broken ''down'']\<rparr>))
     = Return (Some (ErrOther ''down''))
   \<and> EvClear 1 \<notin> set (calls (snd (InvalidateCache StoreCache
        (fresh\<lparr>cache := (cache fresh)[0 := Broken ''down'']\<rparr>))))"
proof -
  let ?e = "fresh\<lparr>cache := (cache fresh)[0 := Broken ''down'']\<rparr>"
  have a: "well_formed ?e" by (simp add: well_formed_def fresh_def)
  have b: "0 < shardPartitions" by (simp add: shardPartitions_def)
  have c: "fst (cache_Clear StoreCache (cache ?e ! 0)) = Some (ErrOther ''down'')"
    by (simp add: fresh_def shardPartitions_def StoreCache_def)
  have d: "\<forall>i < (0::nat). fst (cache_Clear StoreCache (cache ?e ! i)) = None" by simp
  from InvalidateCache_first_failure [OF a b c d] show ?thesis by (simp add: fresh_def)
qed

text \<open>
  Claim C2, amended. When the clear of shard \<open>k\<close> is the first to fail, \<^verbatim>\<open>InvalidateCache\<close>
  returns that error and stops there: the shards up to \<open>k\<close> have been locked and their
  clear invoked, in index order; no later shard is locked or cleared, and each keeps its
  state; every lock taken is released, the last taken first.
\<close>

theorem InvalidateCache_stops_at_first_error:
  assumes "well_formed e" and "k < shardPartitions"
    and "fst (cache_Clear B (cache e ! k)) = Some err"
    and "\<forall>i < k. fst (cache_Clear B (cache e ! i)) = None"
  shows "InvalidateCache B e =
     (Return (Some err),
      e\<lparr>cache := cleared_upto B (Suc k) (cache e),
        calls := calls e @ concat (map (\<lambda>i. [EvLock i, EvClear i]) [0..<Suc k])
                   @ map EvUnlock (rev [0..<Suc k])\<rparr>)
    \<and> (\<forall>j. k < j \<and> j < shardPartitions \<longrightarrow>
          cleared_upto B (Suc k) (cache e) ! j = cache e ! j
          \<and> EvLock j \<notin> set (concat (map (\<lambda>i. [EvLock i, EvClear i]) [0..<Suc k])
                              @ map EvUnlock (rev [0..<Suc k]))
          \<and> EvClear j \<notin> set (concat (map (\<lambda>i. [EvLock i, EvClear i]) [0..<Suc k])
                               @ map EvUnlock (rev [0..<Suc k])))"
proof -
  have l: "length (cache e) = shardPartitions"
    using assms(1) by (simp add: well_formed_def)
  have "\<forall>j. k < j \<and> j < shardPartitions \<longrightarrow> cleared_upto B (Suc k) (cache e) ! j = cache e ! j"
    using l by (simp add: cleared_upto_beyond)
  moreover have "\<forall>j. k < j \<longrightarrow>
      EvLock j \<notin> set (concat (map (\<lambda>i. [EvLock i, EvClear i]) [0..<Suc k])
                       @ map EvUnlock (rev [0..<Suc k]))
      \<and> EvClear j \<notin> set (concat (map (\<lambda>i. [EvLock i, EvClear i]) [0..<Suc k])
                       @ map EvUnlock (rev [0..<Suc k]))"
    by auto
  ultimately show ?thesis
    using InvalidateCache_first_failure [OF assms] by simp
qed

theorem InvalidateCache_stops_at_first_error_witness:
  "fst (InvalidateCache StoreCache
          (fresh\<lparr>cache := (cache fresh)[2 := ReadOnly Map.empty ''read only'']\<rparr>))
     = Return (Some (ErrOther ''read only''))
   \<and> calls (snd (InvalidateCache StoreCache
          (fresh\<lparr>cache := (cache fresh)[2 := ReadOnly Map.empty ''read only'']\<rparr>)))
     = [EvLock 0, EvClear 0, EvLock 1, EvClear 1, EvLock 2, EvClear 2,
        EvUnlock 2, EvUnlock 1, EvUnlock 0]"
proof -
  let ?e = "fresh\<lparr>cache := (cache fresh)[2 := ReadOnly Map.empty ''read only'']\<rparr>"
  have a: "well_formed ?e" by (simp add: well_formed_def fresh_def)
  have b: "2 < shardPartitions" by (simp add: shardPartitions_def)
  have c: "fst (cache_Clear StoreCache (cache ?e ! 2)) = Some (ErrOther ''read only'')"
    by (simp add: fresh_def shardPartitions_def StoreCache_def)
  have d: "\<forall>i < 2. fst (cache_Clear StoreCache (cache ?e ! i)) = None"
    by (simp add: cache_fresh_nth StoreCache_def DefaultCache_def)
  have u: "[0..<3] = [0, 1, 2]" by (simp add: upt_rec)
  from InvalidateCache_stops_at_first_error [OF a b c d] show ?thesis
    by (simp add: u calls_fresh)
qed

section \<open>RemovePolicy\<close>

lemma shard_Delete_eq:
  "idx < length (cache e) \<Longrightarrow>
   shard_Delete B idx key e =
     (Return (fst (cache_Delete B (cache e ! idx) key)),
      e\<lparr>cache := (cache e)[idx := snd (cache_Delete B (cache e ! idx) key)],
        calls := calls e @ [EvDelete idx key]\<rparr>)"
  by (simp add: shard_Delete_def case_prod_unfold)

lemma RemovePolicy_deleted:
  assumes "enableCache e \<noteq> 0" and "well_formed e" and "getKey params = (key, True)"
    and "cache_Delete B (cache e ! getShardIdx key) key = (derr, c')"
    and "derr = None \<or> derr = Some ErrNoSuchKey"
  shows "RemovePolicy B E params e =
     (Return (fst (eng_RemovePolicy E (Enforcer e) params)),
      e\<lparr>Enforcer := snd (eng_RemovePolicy E (Enforcer e) params),
        cache := (cache e)[getShardIdx key := c'],
        calls := calls e @ [EvDelete (getShardIdx key) key, EvRemovePolicy params]\<rparr>)"
proof -
  have i: "getShardIdx key < length (cache e)"
    using assms(2) getShardIdx_less [of key] by (simp add: well_formed_def)
  from assms(5) show ?thesis
    using assms(1,3,4) i
    by (auto simp: RemovePolicy_def shard_Delete_eq engine_RemovePolicy_def case_prod_unfold
        Let_def)
qed

lemma RemovePolicy_delete_failed:
  assumes "enableCache e \<noteq> 0" and "well_formed e" and "getKey params = (key, True)"
    and "cache_Delete B (cache e ! getShardIdx key) key = (Some err, c')"
    and "err \<noteq> ErrNoSuchKey"
  shows "RemovePolicy B E params e =
     (Return (False, Some err),
      e\<lparr>cache := (cache e)[getShardIdx key := c'],
        calls := calls e @ [EvDelete (getShardIdx key) key]\<rparr>)"
proof -
  have i: "getShardIdx key < length (cache e)"
    using assms(2) getShardIdx_less [of key] by (simp add: well_formed_def)
  then show ?thesis
    using assms(1,3,4,5) by (simp add: RemovePolicy_def shard_Delete_eq Let_def)
qed

lemma RemovePolicy_not_applicable:
  assumes "\<not> snd (getKey params)"
  shows "RemovePolicy B E params e =
     (Return (fst (eng_RemovePolicy E (Enforcer e) params)),
      e\<lparr>Enforcer := snd (eng_RemovePolicy E (Enforcer e) params),
        calls := calls e @ [EvRemovePolicy params]\<rparr>)"
  using assms by (simp add: RemovePolicy_def engine_RemovePolicy_def case_prod_unfold)

lemma deleted_entries:
  assumes "deletes_exactly B entries" and "idx < length cs"
    and "cache_Delete B (cs ! idx) key = (derr, c')"
    and "derr = None \<or> derr = Some ErrNoSuchKey"
  shows "\<forall>i < length cs. \<forall>k.
           entries (cs[idx := c'] ! i) k
           = (if i = idx \<and> k = key then None else entries (cs ! i) k)"
proof (intro allI impI)
  fix i k assume i: "i < length cs"
  have f: "fst (cache_Delete B (cs ! idx) key) = derr"
    and s: "snd (cache_Delete B (cs ! idx) key) = c'"
    using assms(3) by simp_all
  have "fst (cache_Delete B (cs ! idx) key) = None
      \<or> fst (cache_Delete B (cs ! idx) key) = Some ErrNoSuchKey \<longrightarrow>
      entries (snd (cache_Delete B (cs ! idx) key)) = (entries (cs ! idx))(key := None)"
    using assms(1) unfolding deletes_exactly_def by (elim allE)
  with f s assms(4) have "entries c' = (entries (cs ! idx))(key := None)" by simp
  then show "entries (cs[idx := c'] ! i) k
           = (if i = idx \<and> k = key then None else entries (cs ! i) k)"
    using i assms(2) by (cases "i = idx") simp_all
qed

lemma deletes_exactly_StoreCache: "deletes_exactly StoreCache store_entries"
  unfolding deletes_exactly_def
proof (intro allI impI)
  fix c k
  assume "fst (cache_Delete StoreCache c k) = None
      \<or> fst (cache_Delete StoreCache c k) = Some ErrNoSuchKey"
  then show "store_entries (snd (cache_Delete StoreCache c k)) = (store_entries c)(k := None)"
    by (cases c) (auto simp: StoreCache_def DefaultCache_def split: option.splits)
qed

text \<open>
  Claim C5, as stated, fails: a delete that fails with an error other than not-found ends
  \<^verbatim>\<open>RemovePolicy\<close> with that error. On a read-only shard the removal that the engine
  would have performed (and answered with true) is never requested.
\<close>

theorem RemovePolicy_delete_error_blocks_removal:
  "RemovePolicy StoreCache (ListEngine None) alice
     (fresh\<lparr>cache := (cache fresh)
        [2 := ReadOnly [''alice$$data1$$read$$'' \<mapsto> True] ''read only'']\<rparr>)
   = (Return (False, Some (ErrOther ''read only'')),
      fresh\<lparr>cache := (cache fresh)
          [2 := ReadOnly [''alice$$data1$$read$$'' \<mapsto> True] ''read only''],
        calls := [EvDelete 2 ''alice$$data1$$read$$'']\<rparr>)
   \<and> eng_RemovePolicy (ListEngine None) (Enforcer fresh) alice = ((True, None), [])"
proof -
  let ?key = "''alice$$data1$$read$$''"
  let ?ro = "ReadOnly [?key \<mapsto> True] ''read only''"
  let ?e = "fresh\<lparr>cache := (cache fresh)[2 := ?ro]\<rparr>"
  have a: "enableCache ?e \<noteq> 0" by (simp add: fresh_def)
  have b: "well_formed ?e" by (simp add: well_formed_def fresh_def)
  have c: "cache_Delete StoreCache (cache ?e ! getShardIdx ?key) ?key
         = (Some (ErrOther ''read only''), ?ro)"
    by (simp add: getShardIdx_alice fresh_def shardPartitions_def StoreCache_def)
  have d: "ErrOther ''read only'' \<noteq> ErrNoSuchKey" by simp
  from RemovePolicy_delete_failed [OF a b getKey_alice c d, of "ListEngine None"]
  show ?thesis by (simp add: getShardIdx_alice calls_fresh) (simp add: ListEngine_def fresh_def)
qed

text \<open>
  Claim C5, amended. With caching enabled: for an applicable tuple whose delete returns nil
  or not-found, \<^verbatim>\<open>RemovePolicy\<close> issues exactly one backend call, the delete of the
  tuple's key on the key's shard, then delegates to the engine and returns its outcome;
  for a backend that honours \<^verbatim>\<open>Delete\<close>, exactly the entry under that key on that shard
  is gone and every other entry of every shard is as before. When the delete fails with
  another error, \<^verbatim>\<open>RemovePolicy\<close> returns false with that error and the engine's removal
  is not invoked. For a tuple without a key no backend is called and the removal is
  delegated.
\<close>

theorem RemovePolicy_spec:
  assumes "enableCache e \<noteq> 0" and "well_formed e"
  shows "(\<forall>key derr c'. getKey params = (key, True)
            \<and> cache_Delete B (cache e ! getShardIdx key) key = (derr, c')
            \<and> (derr = None \<or> derr = Some ErrNoSuchKey) \<longrightarrow>
            RemovePolicy B E params e =
              (Return (fst (eng_RemovePolicy E (Enforcer e) params)),
               e\<lparr>Enforcer := snd (eng_RemovePolicy E (Enforcer e) params),
                 cache := (cache e)[getShardIdx key := c'],
                 calls := calls e @ [EvDelete (getShardIdx key) key, EvRemovePolicy params]\<rparr>)
            \<and> (\<forall>entries. deletes_exactly B entries \<longrightarrow>
                  (\<forall>i < shardPartitions. \<forall>k.
                     entries ((cache e)[getShardIdx key := c'] ! i) k
                     = (if i = getShardIdx key \<and> k = key then None
                        else entries (cache e ! i) k))))
       \<and> (\<forall>key err c'. getKey params = (key, True)
            \<and> cache_Delete B (cache e ! getShardIdx key) key = (Some err, c')
            \<and> err \<noteq> ErrNoSuchKey \<longrightarrow>
            RemovePolicy B E params e =
              (Return (False, Some err),
               e\<lparr>cache := (cache e)[getShardIdx key := c'],
                 calls := calls e @ [EvDelete (getShardIdx key) key]\<rparr>))
       \<and> (\<not> snd (getKey params) \<longrightarrow>
            RemovePolicy B E params e =
              (Return (fst (eng_RemovePolicy E (Enforcer e) params)),
               e\<lparr>Enforcer := snd (eng_RemovePolicy E (Enforcer e) params),
                 calls := calls e @ [EvRemovePolicy params]\<rparr>))"
proof (intro conjI allI impI)
  fix key derr c'
  assume h: "getKey params = (key, True)
      \<and> cache_Delete B (cache e ! getShardIdx key) key = (derr, c')
      \<and> (derr = None \<or> derr = Some ErrNoSuchKey)"
  then show "RemovePolicy B E params e =
      (Return (fst (eng_RemovePolicy E (Enforcer e) params)),
       e\<lparr>Enforcer := snd (eng_RemovePolicy E (Enforcer e) params),
         cache := (cache e)[getShardIdx key := c'],
         calls := calls e @ [EvDelete (getShardIdx key) key, EvRemovePolicy params]\<rparr>)"
    by (intro RemovePolicy_deleted [OF assms, of params key B derr c' E]) simp_all
  fix entries :: "'a \<Rightarrow> string \<rightharpoonup> bool" and i k
  assume d: "deletes_exactly B entries" and i: "i < shardPartitions"
  have l: "length (cache e) = shardPartitions" using assms(2) by (simp add: well_formed_def)
  have "getShardIdx key < length (cache e)" using l getShardIdx_less [of key] by simp
  with d h i l show "entries ((cache e)[getShardIdx key := c'] ! i) k
      = (if i = getShardIdx key \<and> k = key then None else entries (cache e ! i) k)"
    using deleted_entries [of B entries "getShardIdx key" "cache e" key derr c'] by simp
next
  fix key err c'
  assume "getKey params = (key, True)
      \<and> cache_Delete B (cache e ! getShardIdx key) key = (Some err, c')
      \<and> err \<noteq> ErrNoSuchKey"
  then show "RemovePolicy B E params e =
      (Return (False, Some err),
       e\<lparr>cache := (cache e)[getShardIdx key := c'],
         calls := calls e @ [EvDelete (getShardIdx key) key]\<rparr>)"
    by (intro RemovePolicy_delete_failed [OF assms, of params key B err c' E]) simp_all
next
  assume "\<not> snd (getKey params)"
  then show "RemovePolicy B E params e =
      (Return (fst (eng_RemovePolicy E (Enforcer e) params)),
       e\<lparr>Enforcer := snd (eng_RemovePolicy E (Enforcer e) params),
         calls := calls e @ [EvRemovePolicy params]\<rparr>)"
    by (rule RemovePolicy_not_applicable)
qed


theorem RemovePolicy_spec_witness:
  "fst (RemovePolicy StoreCache (ListEngine None) alice
     (fresh\<lparr>cache := (cache fresh)
        [2 := Table [''alice$$data1$$read$$'' \<mapsto> True, ''a$$b$$'' \<mapsto> False] ]\<rparr>))
     = Return (True, None)
   \<and> calls (snd (RemovePolicy StoreCache (ListEngine None) alice
     (fresh\<lparr>cache := (cache fresh)
        [2 := Table [''alice$$data1$$read$$'' \<mapsto> True, ''a$$b$$'' \<mapsto> False] ]\<rparr>)))
     = [EvDelete 2 ''alice$$data1$$read$$'', EvRemovePolicy alice]
   \<and> store_entries (cache (snd (RemovePolicy StoreCache (ListEngine None) alice
     (fresh\<lparr>cache := (cache fresh)
        [2 := Table [''alice$$data1$$read$$'' \<mapsto> True, ''a$$b$$'' \<mapsto> False] ]\<rparr>))) ! 2)
       ''alice$$data1$$read$$'' = None
   \<and> store_entries (cache (snd (RemovePolicy StoreCache (ListEngine None) alice
     (fresh\<lparr>cache := (cache fresh)
        [2 := Table [''alice$$data1$$read$$'' \<mapsto> True, ''a$$b$$'' \<mapsto> False] ]\<rparr>))) ! 2)
       ''a$$b$$'' = Some False
   \<and> RemovePolicy StoreCache (ListEngine None) alice
       (fresh\<lparr>cache := (cache fresh)[2 := Broken ''unreachable'']\<rparr>)
     = (Return (False, Some (ErrOther ''unreachable'')),
        fresh\<lparr>cache := (cache fresh)[2 := Broken ''unreachable''],
          calls := [EvDelete 2 ''alice$$data1$$read$$'']\<rparr>)
   \<and> RemovePolicy StoreCache (ListEngine None) [String ''alice'', Other 1] fresh
     = (Return (False, None), fresh\<lparr>calls := [EvRemovePolicy [String ''alice'', Other 1]]\<rparr>)"
proof -
  let ?key = "''alice$$data1$$read$$''"
  let ?t = "Table [?key \<mapsto> True, ''a$$b$$'' \<mapsto> False]"
  let ?e = "fresh\<lparr>cache := (cache fresh)[2 := ?t]\<rparr>"
  let ?f = "fresh\<lparr>cache := (cache fresh)[2 := Broken ''unreachable'']\<rparr>"
  let ?c' = "Table ([?key \<mapsto> True, ''a$$b$$'' \<mapsto> False](?key := None))"
  have a: "enableCache ?e \<noteq> 0" and a': "enableCache ?f \<noteq> 0" and a'': "enableCache fresh \<noteq> 0"
    by (simp_all add: fresh_def)
  have b: "well_formed ?e" and b': "well_formed ?f" by (simp_all add: well_formed_def fresh_def)
  have c: "getKey alice = (?key, True)
      \<and> cache_Delete StoreCache (cache ?e ! getShardIdx ?key) ?key = (None, ?c')
      \<and> ((None :: error option) = None \<or> (None :: error option) = Some ErrNoSuchKey)"
    by (simp add: getKey_alice getShardIdx_alice fresh_def shardPartitions_def StoreCache_def
        DefaultCache_def)
  have c': "getKey alice = (?key, True)
      \<and> cache_Delete StoreCache (cache ?f ! getShardIdx ?key) ?key
          = (Some (ErrOther ''unreachable''), Broken ''unreachable'')
      \<and> ErrOther ''unreachable'' \<noteq> ErrNoSuchKey"
    by (simp add: getKey_alice getShardIdx_alice fresh_def shardPartitions_def StoreCache_def)
  have c'': "\<not> snd (getKey [String ''alice'', Other 1])" by (simp add: getKey_def)
  have i: "(2::nat) < shardPartitions" by (simp add: shardPartitions_def)
  note A = RemovePolicy_spec [OF a b, of alice StoreCache "ListEngine None",
      THEN conjunct1, rule_format, OF c]
  note A1 = A [THEN conjunct1]
  note A2 = A [THEN conjunct2, rule_format, OF deletes_exactly_StoreCache i]
  note B = RemovePolicy_spec [OF a' b', of alice StoreCache "ListEngine None",
      THEN conjunct2, THEN conjunct1, rule_format, OF c']
  note C = RemovePolicy_spec [OF a'' well_formed_fresh,
      of "[String ''alice'', Other 1]" StoreCache "ListEngine None",
      THEN conjunct2, THEN conjunct2, rule_format, OF c'']
  have e1: "eng_RemovePolicy (ListEngine None) (Enforcer ?e) alice = ((True, None), [])"
    by (simp add: ListEngine_def fresh_def)
  have e2: "eng_RemovePolicy (ListEngine None) (Enforcer fresh) [String ''alice'', Other 1]
      = ((False, None), [alice])"
    by (simp add: ListEngine_def fresh_def alice_def)
  have l: "2 < length (cache fresh)" by (simp add: fresh_def shardPartitions_def)
  from A1 A2 [of ?key] A2 [of "''a$$b$$''"] B C e1 e2 l show ?thesis
    by (simp add: getShardIdx_alice calls_fresh) (simp add: fresh_def)
qed

section \<open>Enforce called twice\<close>

lemma keyable_string: "list_all is_string p \<Longrightarrow> list_all keyable p"
proof (induction p)
  case Nil
  then show ?case by simp
next
  case (Cons a p)
  then show ?case by (cases a) simp_all
qed

lemma Enforce_on_hit:
  assumes "enableCache e \<noteq> 0" and "well_formed e" and "getKey rvals = (key, True)"
    and "cache_Get B (cache e ! getShardIdx key) key = ((res, None), c')"
  shows "Enforce B E rvals e =
     (Return (res, None),
      e\<lparr>cache := (cache e)[getShardIdx key := c'],
        calls := calls e @ [EvRLock (getShardIdx key), EvGet (getShardIdx key) key,
                            EvRUnlock (getShardIdx key)]\<rparr>)"
  using assms by (simp add: Enforce_def getCachedResult_eq)

lemma reliable_hit:
  assumes "reliable B entries" and "entries c k = Some v"
  shows "cache_Get B c k = ((v, None), snd (cache_Get B c k))"
    and "entries (snd (cache_Get B c k)) = entries c"
proof -
  have "(case entries c k of
                Some v \<Rightarrow> fst (cache_Get B c k) = (v, None)
              | None \<Rightarrow> snd (fst (cache_Get B c k)) = Some ErrNoSuchKey)
             \<and> entries (snd (cache_Get B c k)) = entries c"
    using assms(1) by (simp add: reliable_def)
  with assms(2) have "fst (cache_Get B c k) = (v, None)"
    and e: "entries (snd (cache_Get B c k)) = entries c" by simp_all
  then show "cache_Get B c k = ((v, None), snd (cache_Get B c k))"
    by (simp add: prod_eq_iff)
  from e show "entries (snd (cache_Get B c k)) = entries c" .
qed

lemma reliable_miss:
  assumes "reliable B entries" and "entries c k = None"
  shows "cache_Get B c k = ((fst (fst (cache_Get B c k)), Some ErrNoSuchKey), snd (cache_Get B c k))"
    and "entries (snd (cache_Get B c k)) = entries c"
proof -
  have "(case entries c k of
                Some v \<Rightarrow> fst (cache_Get B c k) = (v, None)
              | None \<Rightarrow> snd (fst (cache_Get B c k)) = Some ErrNoSuchKey)
             \<and> entries (snd (cache_Get B c k)) = entries c"
    using assms(1) by (simp add: reliable_def)
  with assms(2) have "snd (fst (cache_Get B c k)) = Some ErrNoSuchKey"
    and e: "entries (snd (cache_Get B c k)) = entries c" by simp_all
  then show "cache_Get B c k
      = ((fst (fst (cache_Get B c k)), Some ErrNoSuchKey), snd (cache_Get B c k))"
    by (simp add: prod_eq_iff)
  from e show "entries (snd (cache_Get B c k)) = entries c" .
qed

lemma reliable_set:
  assumes "reliable B entries"
  shows "cache_Set B c k v extra = (None, snd (cache_Set B c k v extra))"
    and "entries (snd (cache_Set B c k v extra)) = (entries c)(k \<mapsto> v)"
proof -
  have "fst (cache_Set B c k v extra) = None
      \<and> entries (snd (cache_Set B c k v extra)) = (entries c)(k \<mapsto> v)"
    using assms by (simp add: reliable_def)
  then show "cache_Set B c k v extra = (None, snd (cache_Set B c k v extra))"
    and "entries (snd (cache_Set B c k v extra)) = (entries c)(k \<mapsto> v)"
    by (simp_all add: prod_eq_iff)
qed

lemma evaluations_append: "evaluations (xs @ ys) = evaluations xs + evaluations ys"
  by (simp add: evaluations_def)

lemma Enforce_second_call:
  assumes rel: "reliable B entries" and on: "enableCache e \<noteq> 0" and wf: "well_formed e"
    and key: "getKey p = (key, True)"
    and first: "Enforce B E p e = (Return (b, None), e1)"
  shows "Enforce B E p e1 =
     (Return (b, None),
      e1\<lparr>cache := (cache e1)[getShardIdx key :=
                      snd (cache_Get B (cache e1 ! getShardIdx key) key)],
         calls := calls e1 @ [EvRLock (getShardIdx key), EvGet (getShardIdx key) key,
                              EvRUnlock (getShardIdx key)]\<rparr>)
    \<and> evaluations (calls e1) \<le> evaluations (calls e) + 1"
proof -
  let ?i = "getShardIdx key"
  let ?c0 = "cache e ! ?i"
  let ?c1 = "snd (cache_Get B ?c0 key)"
  have i: "?i < length (cache e)"
    using wf getShardIdx_less [of key] by (simp add: well_formed_def)
  have hit_again: "Enforce B E p e1 =
     (Return (b, None),
      e1\<lparr>cache := (cache e1)[?i := snd (cache_Get B (cache e1 ! ?i) key)],
         calls := calls e1 @ [EvRLock ?i, EvGet ?i key, EvRUnlock ?i]\<rparr>)"
    if "enableCache e1 \<noteq> 0" and "well_formed e1" and "entries (cache e1 ! ?i) key = Some b"
    using that(1,2) key reliable_hit(1) [OF rel that(3)] by (rule Enforce_on_hit)
  show ?thesis
  proof (cases "entries ?c0 key")
    case (Some v)
    let ?e1 = "e\<lparr>cache := (cache e)[?i := ?c1],
        calls := calls e @ [EvRLock ?i, EvGet ?i key, EvRUnlock ?i]\<rparr>"
    have "Enforce B E p e = (Return (v, None), ?e1)"
      using on wf key reliable_hit(1) [OF rel Some] by (rule Enforce_on_hit)
    with first have b: "b = v" and e1: "e1 = ?e1" by simp_all
    have "entries (cache e1 ! ?i) key = Some b"
      using e1 b i Some reliable_hit(2) [OF rel Some] by simp
    moreover have "enableCache e1 \<noteq> 0" using e1 on by simp
    moreover have "well_formed e1" using e1 wf by (simp add: well_formed_def)
    ultimately have "Enforce B E p e1 =
     (Return (b, None),
      e1\<lparr>cache := (cache e1)[?i := snd (cache_Get B (cache e1 ! ?i) key)],
         calls := calls e1 @ [EvRLock ?i, EvGet ?i key, EvRUnlock ?i]\<rparr>)"
      by (intro hit_again)
    moreover have "evaluations (calls e1) \<le> evaluations (calls e) + 1"
      using e1 by (simp add: evaluations_def)
    ultimately show ?thesis by simp
  next
    case None
    obtain res eerr en' where en: "eng_Enforce E (Enforcer e) p = ((res, eerr), en')"
      by (metis prod.exhaust)
    let ?c2 = "snd (cache_Set B ?c1 key res [expireTime e])"
    have m: "Enforce B E p e =
     (if eerr \<noteq> None then
        (Return (False, eerr),
         e\<lparr>Enforcer := en', cache := (cache e)[?i := ?c1],
           calls := calls e @ [EvRLock ?i, EvGet ?i key, EvRUnlock ?i, EvEnforce p]\<rparr>)
      else
        (Return (res, None),
         e\<lparr>Enforcer := en', cache := (cache e)[?i := ?c2],
           calls := calls e @ [EvRLock ?i, EvGet ?i key, EvRUnlock ?i, EvEnforce p,
                               EvLock ?i, EvSet ?i key res [expireTime e], EvUnlock ?i]\<rparr>))"
      using on wf key reliable_miss(1) [OF rel None] en
        reliable_set(1) [OF rel, of ?c1 key res "[expireTime e]"]
      by (rule Enforce_on_miss)
    from m first have ok: "eerr = None" by (cases "eerr = None") simp_all
    let ?e1 = "e\<lparr>Enforcer := en', cache := (cache e)[?i := ?c2],
           calls := calls e @ [EvRLock ?i, EvGet ?i key, EvRUnlock ?i, EvEnforce p,
                               EvLock ?i, EvSet ?i key res [expireTime e], EvUnlock ?i]\<rparr>"
    from m first ok have b: "b = res" and e1: "e1 = ?e1" by simp_all
    have "entries ?c2 key = Some res"
      using reliable_set(2) [OF rel, of ?c1 key res "[expireTime e]"] by simp
    then have "entries (cache e1 ! ?i) key = Some b" using e1 b i by simp
    moreover have "enableCache e1 \<noteq> 0" using e1 on by simp
    moreover have "well_formed e1" using e1 wf by (simp add: well_formed_def)
    ultimately have "Enforce B E p e1 =
     (Return (b, None),
      e1\<lparr>cache := (cache e1)[?i := snd (cache_Get B (cache e1 ! ?i) key)],
         calls := calls e1 @ [EvRLock ?i, EvGet ?i key, EvRUnlock ?i]\<rparr>)"
      by (intro hit_again)
    moreover have "evaluations (calls e1) \<le> evaluations (calls e) + 1"
      using e1 by (simp add: evaluations_def)
    ultimately show ?thesis by simp
  qed
qed

lemma reliable_DefaultCache: "reliable DefaultCache (\<lambda>c. c)"
  by (auto simp: reliable_def DefaultCache_def split: option.splits)

lemma well_formed_started: "well_formed started"
  by (simp add: well_formed_def started_def)

lemma Enforce_started_faulty:
  "Enforce DefaultCache (ListEngine (Some err)) alice (started\<lparr>calls := evs\<rparr>)
   = (Return (False, Some err),
      started\<lparr>calls := evs @ [EvRLock 2, EvGet 2 ''alice$$data1$$read$$'', EvRUnlock 2,
                              EvEnforce alice]\<rparr>)"
proof -
  let ?key = "''alice$$data1$$read$$''"
  let ?e = "started\<lparr>calls := evs\<rparr>"
  have a: "enableCache ?e \<noteq> 0" by (simp add: started_def)
  have b: "well_formed ?e" by (simp add: well_formed_def started_def)
  have c: "cache_Get DefaultCache (cache ?e ! getShardIdx ?key) ?key
         = ((False, Some ErrNoSuchKey), Map.empty)"
    by (simp add: getShardIdx_alice started_def shardPartitions_def DefaultCache_def)
  have d: "eng_Enforce (ListEngine (Some err)) (Enforcer ?e) alice = ((False, Some err), [alice])"
    by (simp add: ListEngine_def started_def)
  have s: "cache_Set DefaultCache Map.empty ?key False [expireTime ?e]
         = (None, [?key \<mapsto> False])"
    by (simp add: DefaultCache_def)
  from Enforce_on_miss [OF a b getKey_alice c d s]
  show ?thesis
    by (simp add: getShardIdx_alice started_def shardPartitions_def replicate_update_same)
qed

lemma NewCachedEnforcer_started: "NewCachedEnforcer (Inr [alice]) = Inr started"
  by (simp add: NewCachedEnforcer_def started_def)

text \<open>
  Claim C1, as stated, fails for a string-only tuple on the default backend in two ways:
  when the engine's evaluation fails nothing is stored, and when caching is disabled the
  cache is bypassed; either way two calls evaluate twice.
\<close>

theorem Enforce_evaluates_twice:
  "list_all is_string alice
   \<and> evaluations (calls (snd (Enforce DefaultCache (ListEngine (Some (ErrOther ''no model'')))
        alice (snd (Enforce DefaultCache (ListEngine (Some (ErrOther ''no model'')))
          alice started))))) = 2
   \<and> evaluations (calls (snd (Enforce DefaultCache (ListEngine None)
        alice (snd (Enforce DefaultCache (ListEngine None)
          alice (EnableCache False started)))))) = 2"
proof -
  have 1: "list_all is_string alice" by (simp add: alice_def)
  have s: "started = started\<lparr>calls := []\<rparr>" by (simp add: started_def)
  have "Enforce DefaultCache (ListEngine (Some (ErrOther ''no model''))) alice started
      = (Return (False, Some (ErrOther ''no model'')),
         started\<lparr>calls := [] @ [EvRLock 2, EvGet 2 ''alice$$data1$$read$$'', EvRUnlock 2,
                              EvEnforce alice]\<rparr>)"
    using Enforce_started_faulty [of "ErrOther ''no model''" "[]"] s by simp
  then have 2: "evaluations (calls (snd (Enforce DefaultCache
        (ListEngine (Some (ErrOther ''no model'')))
        alice (snd (Enforce DefaultCache (ListEngine (Some (ErrOther ''no model'')))
          alice started))))) = 2"
    by (simp add: Enforce_started_faulty evaluations_def)
  have 3: "evaluations (calls (snd (Enforce DefaultCache (ListEngine None)
        alice (snd (Enforce DefaultCache (ListEngine None)
          alice (EnableCache False started)))))) = 2"
    by (simp add: Enforce_def EnableCache_def engine_Enforce_def ListEngine_def started_def
        evaluations_def)
  from 1 2 3 show ?thesis by simp
qed

text \<open>
  Claim C1, amended. With caching enabled, a backend whose operations succeed, and a
  string-only tuple: if the first \<^verbatim>\<open>Enforce\<close> returns a decision without error, the
  second call, made on the state the first left, returns the same decision without error
  and is served from the cache (it adds no evaluation and leaves the engine as it was), so
  the engine evaluates at most once across the two calls.
\<close>

theorem Enforce_twice:
  assumes "reliable B entries" and "enableCache e \<noteq> 0" and "well_formed e"
    and "list_all is_string p"
    and "Enforce B E p e = (Return (b, None), e1)"
    and "Enforce B E p e1 = (r2, e2)"
  shows "r2 = Return (b, None)
       \<and> evaluations (calls e2) = evaluations (calls e1)
       \<and> evaluations (calls e2) \<le> evaluations (calls e) + 1
       \<and> Enforcer e2 = Enforcer e1"
proof -
  have key: "getKey p = (key_of p, True)"
    using assms(4) by (simp add: getKey_keyable keyable_string)
  from Enforce_second_call [OF assms(1,2,3) key assms(5)] assms(6)
  show ?thesis by (auto simp: evaluations_def)
qed


theorem Enforce_twice_witness:
  "fst (Enforce DefaultCache (ListEngine None) alice started) = Return (True, None)
   \<and> fst (Enforce DefaultCache (ListEngine None) alice
        (snd (Enforce DefaultCache (ListEngine None) alice started))) = Return (True, None)
   \<and> evaluations (calls (snd (Enforce DefaultCache (ListEngine None) alice
        (snd (Enforce DefaultCache (ListEngine None) alice started))))) = 1"
proof -
  let ?key = "''alice$$data1$$read$$''"
  let ?e1 = "started\<lparr>cache := (cache started)[2 := [?key \<mapsto> True]],
      calls := [EvRLock 2, EvGet 2 ?key, EvRUnlock 2, EvEnforce alice,
                EvLock 2, EvSet 2 ?key True [0], EvUnlock 2]\<rparr>"
  have a: "enableCache started \<noteq> 0" by (simp add: started_def)
  have c: "cache_Get DefaultCache (cache started ! getShardIdx ?key) ?key
         = ((False, Some ErrNoSuchKey), Map.empty)"
    by (simp add: getShardIdx_alice started_def shardPartitions_def DefaultCache_def)
  have d: "eng_Enforce (ListEngine None) (Enforcer started) alice = ((True, None), [alice])"
    by (simp add: ListEngine_def started_def)
  have s: "cache_Set DefaultCache Map.empty ?key True [expireTime started]
         = (None, [?key \<mapsto> True])"
    by (simp add: DefaultCache_def)
  have first: "Enforce DefaultCache (ListEngine None) alice started = (Return (True, None), ?e1)"
    using Enforce_on_miss [OF a well_formed_started getKey_alice c d s]
    by (simp add: getShardIdx_alice started_def)
  obtain r2 e2 where second: "Enforce DefaultCache (ListEngine None) alice ?e1 = (r2, e2)"
    by (rule prod.exhaust)
  have p: "list_all is_string alice" by (simp add: alice_def)
  have n: "evaluations (calls ?e1) = 1" "evaluations (calls started) = 0"
    by (simp_all add: evaluations_def started_def)
  from Enforce_twice [OF reliable_DefaultCache a well_formed_started p first second] n
  have "r2 = Return (True, None)" and "evaluations (calls e2) = 1" by simp_all
  with first second show ?thesis by simp
qed

section \<open>RemovePolicies\<close>

lemma copy_rule_eq:
  "i \<le> length irule \<Longrightarrow>
   copy_rule irule i ps =
     (if i + length ps \<le> length irule
      then Return (take i irule @ map String ps @ drop (i + length ps) irule)
      else Panic (IndexOutOfRange (length irule) (length irule)))"
proof (induction ps arbitrary: i irule)
  case Nil
  then show ?case by simp
next
  case (Cons p ps)
  show ?case
  proof (cases "i < length irule")
    case True
    let ?irule = "irule[i := String p]"
    have t: "take (Suc i) ?irule = take i irule @ [String p]"
      using True by (simp add: take_Suc_conv_app_nth)
    have d: "drop (Suc i + length ps) ?irule = drop (Suc i + length ps) irule"
      by simp
    have "copy_rule ?irule (Suc i) ps =
      (if Suc i + length ps \<le> length ?irule
       then Return (take (Suc i) ?irule @ map String ps @ drop (Suc i + length ps) ?irule)
       else Panic (IndexOutOfRange (length ?irule) (length ?irule)))"
      using True by (intro Cons.IH) simp
    with True t d show ?thesis by simp
  next
    case False
    with Cons.prems have "i = length irule" by simp
    then show ?thesis by simp
  qed
qed

lemma copy_rule_fits:
  "length rule \<le> length irule \<Longrightarrow> copy_rule irule 0 rule = Return (overwrite irule rule)"
  by (simp add: copy_rule_eq overwrite_def)

lemma copy_rule_overflow:
  "length irule < length rule \<Longrightarrow>
   copy_rule irule 0 rule = Panic (IndexOutOfRange (length irule) (length irule))"
  by (simp add: copy_rule_eq)

lemma length_overwrite:
  "length rule \<le> length irule \<Longrightarrow> length (overwrite irule rule) = length irule"
  by (simp add: overwrite_def)

lemma length_delete_at [simp]: "length (delete_at B key cs) = length cs"
  by (simp add: delete_at_def)

lemma length_fold_delete_at [simp]: "length (fold (delete_at B) keys cs) = length cs"
  by (induction keys arbitrary: cs) simp_all

lemma RemovePolicies_loop_step:
  assumes "length rule \<le> length irule"
    and "fst (cache_Delete B (cache e ! getShardIdx (fst (getKey (overwrite irule rule))))
               (fst (getKey (overwrite irule rule)))) = None
       \<or> fst (cache_Delete B (cache e ! getShardIdx (fst (getKey (overwrite irule rule))))
               (fst (getKey (overwrite irule rule)))) = Some ErrNoSuchKey"
    and "length (cache e) = shardPartitions"
  shows "RemovePolicies_loop B irule (rule # rules) e =
     RemovePolicies_loop B (overwrite irule rule) rules
       (e\<lparr>cache := delete_at B (fst (getKey (overwrite irule rule))) (cache e),
          calls := calls e @ [EvDelete (getShardIdx (fst (getKey (overwrite irule rule))))
                                (fst (getKey (overwrite irule rule)))]\<rparr>)"
proof -
  let ?key = "fst (getKey (overwrite irule rule))"
  have i: "getShardIdx ?key < length (cache e)"
    using assms(3) getShardIdx_less [of ?key] by simp
  from assms(2) show ?thesis
    using assms(1) i
    by (auto simp: copy_rule_fits shard_Delete_eq delete_at_def Let_def)
qed

lemma RemovePolicies_loop_prefix:
  assumes "\<forall>r \<in> set pre. length r \<le> length irule"
    and "deletes_pass B (built_keys irule pre) (cache e)"
    and "length (cache e) = shardPartitions"
  shows "RemovePolicies_loop B irule (pre @ rest) e =
     RemovePolicies_loop B (foldl overwrite irule pre) rest
       (e\<lparr>cache := fold (delete_at B) (built_keys irule pre) (cache e),
          calls := calls e @ map (\<lambda>k. EvDelete (getShardIdx k) k) (built_keys irule pre)\<rparr>)"
  using assms
proof (induction pre arbitrary: irule e)
  case Nil
  then show ?case by simp
next
  case (Cons r pre)
  let ?buf = "overwrite irule r"
  let ?key = "fst (getKey ?buf)"
  let ?e1 = "e\<lparr>cache := delete_at B ?key (cache e),
          calls := calls e @ [EvDelete (getShardIdx ?key) ?key]\<rparr>"
  have r: "length r \<le> length irule" using Cons.prems(1) by simp
  have d: "fst (cache_Delete B (cache e ! getShardIdx ?key) ?key) = None
      \<or> fst (cache_Delete B (cache e ! getShardIdx ?key) ?key) = Some ErrNoSuchKey"
    using Cons.prems(2) by simp
  have step: "RemovePolicies_loop B irule (r # pre @ rest) e =
      RemovePolicies_loop B ?buf (pre @ rest) ?e1"
    using r d Cons.prems(3) by (rule RemovePolicies_loop_step)
  have 1: "\<forall>q \<in> set pre. length q \<le> length ?buf"
    using Cons.prems(1) r by (simp add: length_overwrite)
  have 2: "deletes_pass B (built_keys ?buf pre) (cache ?e1)"
    using Cons.prems(2) by simp
  have 3: "length (cache ?e1) = shardPartitions" using Cons.prems(3) by simp
  from Cons.IH [OF 1 2 3] step show ?case by simp
qed

lemma RemovePolicies_loop_calls:
  "\<exists>more. calls (snd (RemovePolicies_loop B irule rules e)) = calls e @ more"
proof (induction rules arbitrary: irule e)
  case Nil
  then show ?case by simp
next
  case (Cons rule rules)
  show ?case
  proof (cases "copy_rule irule 0 rule")
    case (Panic p)
    then show ?thesis by simp
  next
    case (Return irule')
    let ?key = "fst (getKey irule')"
    show ?thesis
    proof (cases "getShardIdx ?key < length (cache e)")
      case False
      with Return show ?thesis by (simp add: shard_Delete_def Let_def)
    next
      case True
      let ?e1 = "e\<lparr>cache := (cache e)[getShardIdx ?key :=
                    snd (cache_Delete B (cache e ! getShardIdx ?key) ?key)],
          calls := calls e @ [EvDelete (getShardIdx ?key) ?key]\<rparr>"
      obtain more where "calls (snd (RemovePolicies_loop B irule' rules ?e1)) = calls ?e1 @ more"
        using Cons.IH by blast
      with Return True show ?thesis by (simp add: shard_Delete_eq Let_def)
    qed
  qed
qed


lemma length_foldl_overwrite:
  "\<forall>r \<in> set pre. length r \<le> length irule \<Longrightarrow> length (foldl overwrite irule pre) = length irule"
  by (induction pre arbitrary: irule) (simp_all add: length_overwrite)

lemma set_overwrite: "set (overwrite irule rule) \<subseteq> String ` set rule \<union> set irule"
  using set_drop_subset [of "length rule" irule] by (auto simp: overwrite_def)

lemma set_foldl_overwrite:
  "set (foldl overwrite irule pre) \<subseteq> set irule \<union> String ` (\<Union> (set ` set pre))"
proof (induction pre arbitrary: irule)
  case Nil
  then show ?case by simp
next
  case (Cons r pre)
  have "set (foldl overwrite (overwrite irule r) pre)
      \<subseteq> set (overwrite irule r) \<union> String ` (\<Union> (set ` set pre))"
    by (rule Cons.IH)
  with set_overwrite [of irule r] show ?case by auto
qed

lemma buffer_strings:
  assumes "length first = length irule"
  shows "set (foldl overwrite irule (first # pre)) \<subseteq> String ` (\<Union> (set ` set (first # pre)))"
proof -
  have "overwrite irule first = map String first" using assms by (simp add: overwrite_def)
  then have "foldl overwrite irule (first # pre) = foldl overwrite (map String first) pre"
    by simp
  with set_foldl_overwrite [of "map String first" pre] show ?thesis
    by (simp add: image_Un)
qed

lemma key_of_append: "key_of (xs @ ys) = key_of xs @ key_of ys"
  by (simp add: key_of_def)

lemma key_of_nonempty: "ys \<noteq> [] \<Longrightarrow> key_of ys \<noteq> []"
  by (cases ys) (simp_all add: key_of_def)

lemma keyable_strings: "set xs \<subseteq> range String \<Longrightarrow> list_all keyable xs"
  by (induction xs) auto

lemma RemovePolicies_after_loop:
  assumes "enableCache e \<noteq> 0" and "rules \<noteq> []"
  shows "\<exists>more. calls (snd (RemovePolicies B E rules e))
     = calls (snd (RemovePolicies_loop B (replicate (length (hd rules)) NilValue) rules e)) @ more"
proof (cases "RemovePolicies_loop B (replicate (length (hd rules)) NilValue) rules e")
  case (Pair r e1)
  show ?thesis
  proof (cases r)
    case (Panic p)
    with Pair assms show ?thesis by (simp add: RemovePolicies_def)
  next
    case (Return err)
    with Pair assms show ?thesis
      by (cases err)
         (simp_all add: RemovePolicies_def engine_RemovePolicies_def case_prod_unfold)
  qed
qed

lemma RemovePolicies_loop_head:
  assumes "length rule \<le> length irule" and "length (cache e) = shardPartitions"
  shows "\<exists>more. calls (snd (RemovePolicies_loop B irule (rule # rules) e))
     = calls e @ EvDelete (getShardIdx (fst (getKey (overwrite irule rule))))
                   (fst (getKey (overwrite irule rule))) # more"
proof -
  let ?key = "fst (getKey (overwrite irule rule))"
  let ?err = "fst (cache_Delete B (cache e ! getShardIdx ?key) ?key)"
  let ?e1 = "e\<lparr>cache := (cache e)[getShardIdx ?key :=
                snd (cache_Delete B (cache e ! getShardIdx ?key) ?key)],
      calls := calls e @ [EvDelete (getShardIdx ?key) ?key]\<rparr>"
  have i: "getShardIdx ?key < length (cache e)"
    using assms(2) getShardIdx_less [of ?key] by simp
  obtain more where m: "calls (snd (RemovePolicies_loop B (overwrite irule rule) rules ?e1))
      = calls ?e1 @ more"
    using RemovePolicies_loop_calls by blast
  show ?thesis
  proof (cases "?err \<noteq> None \<and> ?err \<noteq> Some ErrNoSuchKey")
    case True
    then have "RemovePolicies_loop B irule (rule # rules) e = (Return ?err, ?e1)"
      using assms(1) i by (simp add: copy_rule_fits shard_Delete_eq Let_def)
    then show ?thesis by simp
  next
    case False
    then have "RemovePolicies_loop B irule (rule # rules) e
        = RemovePolicies_loop B (overwrite irule rule) rules ?e1"
      using assms(1) i by (auto simp: copy_rule_fits shard_Delete_eq Let_def)
    with m show ?thesis by simp
  qed
qed

lemma length_built_keys: "length (built_keys irule rules) = length rules"
  by (induction rules arbitrary: irule) simp_all

lemma RemovePolicies_overflow:
  assumes "enableCache e \<noteq> 0" and "well_formed e"
    and "\<forall>q \<in> set pre. length q \<le> length first"
    and "deletes_pass B (built_keys (replicate (length first) NilValue) (first # pre)) (cache e)"
    and "length first < length r"
  shows "RemovePolicies B E (first # pre @ r # rest) e =
     (Panic (IndexOutOfRange (length first) (length first)),
      e\<lparr>cache := fold (delete_at B)
                   (built_keys (replicate (length first) NilValue) (first # pre)) (cache e),
        calls := calls e @ map (\<lambda>k. EvDelete (getShardIdx k) k)
                   (built_keys (replicate (length first) NilValue) (first # pre))\<rparr>)"
proof -
  let ?irule = "replicate (length first) NilValue"
  let ?keys = "built_keys ?irule (first # pre)"
  let ?e1 = "e\<lparr>cache := fold (delete_at B) ?keys (cache e),
        calls := calls e @ map (\<lambda>k. EvDelete (getShardIdx k) k) ?keys\<rparr>"
  have l: "length (cache e) = shardPartitions" using assms(2) by (simp add: well_formed_def)
  have f: "\<forall>q \<in> set (first # pre). length q \<le> length ?irule" using assms(3) by simp
  have "RemovePolicies_loop B ?irule ((first # pre) @ r # rest) e =
      RemovePolicies_loop B (foldl overwrite ?irule (first # pre)) (r # rest) ?e1"
    using f assms(4) l by (rule RemovePolicies_loop_prefix)
  moreover have "length (foldl overwrite ?irule (first # pre)) = length first"
    using length_foldl_overwrite [OF f] by simp
  ultimately have "RemovePolicies_loop B ?irule (first # pre @ r # rest) e =
      (Panic (IndexOutOfRange (length first) (length first)), ?e1)"
    using assms(5) by (simp add: copy_rule_overflow)
  then show ?thesis using assms(1) by (simp add: RemovePolicies_def)
qed

lemma RemovePolicies_leftover:
  assumes "enableCache e \<noteq> 0" and "well_formed e"
    and "\<forall>q \<in> set pre. length q \<le> length first"
    and "deletes_pass B (built_keys (replicate (length first) NilValue) (first # pre)) (cache e)"
    and "length r < length first"
  shows "\<exists>leftover more.
      leftover = drop (length r) (foldl overwrite (replicate (length first) NilValue) (first # pre))
      \<and> leftover \<noteq> [] \<and> length (map String r @ leftover) = length first
      \<and> set leftover \<subseteq> String ` (\<Union> (set ` set (first # pre)))
      \<and> calls (snd (RemovePolicies B E (first # pre @ r # rest) e))
          = calls e
              @ map (\<lambda>k. EvDelete (getShardIdx k) k)
                  (built_keys (replicate (length first) NilValue) (first # pre))
              @ EvDelete (getShardIdx (key_of (map String r @ leftover)))
                  (key_of (map String r @ leftover)) # more
      \<and> key_of (map String r @ leftover) \<noteq> key_of (map String r)"
proof -
  let ?irule = "replicate (length first) NilValue"
  let ?keys = "built_keys ?irule (first # pre)"
  let ?buf = "foldl overwrite ?irule (first # pre)"
  let ?leftover = "drop (length r) ?buf"
  let ?key = "key_of (map String r @ ?leftover)"
  let ?before = "map (\<lambda>k. EvDelete (getShardIdx k) k) ?keys"
  let ?e1 = "e\<lparr>cache := fold (delete_at B) ?keys (cache e), calls := calls e @ ?before\<rparr>"
  have l: "length (cache e) = shardPartitions" using assms(2) by (simp add: well_formed_def)
  have f: "\<forall>q \<in> set (first # pre). length q \<le> length ?irule" using assms(3) by simp
  have lb: "length ?buf = length first" using length_foldl_overwrite [OF f] by simp
  have sb: "set ?buf \<subseteq> String ` (\<Union> (set ` set (first # pre)))"
    by (rule buffer_strings) simp
  have sl: "set ?leftover \<subseteq> String ` (\<Union> (set ` set (first # pre)))"
    using sb set_drop_subset [of "length r" ?buf] by blast
  have ne: "?leftover \<noteq> []" using lb assms(5) by simp
  have ow: "overwrite ?buf r = map String r @ ?leftover" by (simp add: overwrite_def)
  have "set (map String r @ ?leftover) \<subseteq> range String" using sl by auto
  then have "list_all keyable (map String r @ ?leftover)" by (rule keyable_strings)
  then have "getKey (map String r @ ?leftover) = (?key, True)" by (rule getKey_keyable)
  then have k: "fst (getKey (overwrite ?buf r)) = ?key" by (simp only: ow fst_conv)
  have loop: "RemovePolicies_loop B ?irule ((first # pre) @ r # rest) e =
      RemovePolicies_loop B ?buf (r # rest) ?e1"
    using f assms(4) l by (rule RemovePolicies_loop_prefix)
  have lr: "length r \<le> length ?buf" using lb assms(5) by simp
  have lc: "length (cache ?e1) = shardPartitions" using l by simp
  obtain m1 where "calls (snd (RemovePolicies_loop B ?buf (r # rest) ?e1))
      = calls ?e1 @ EvDelete (getShardIdx (fst (getKey (overwrite ?buf r))))
                       (fst (getKey (overwrite ?buf r))) # m1"
    using RemovePolicies_loop_head [OF lr lc, of B rest] by blast
  then have m1: "calls (snd (RemovePolicies_loop B ?buf (r # rest) ?e1))
      = calls ?e1 @ EvDelete (getShardIdx ?key) ?key # m1"
    by (simp only: k)
  obtain m2 where m2: "calls (snd (RemovePolicies B E (first # pre @ r # rest) e))
      = calls (snd (RemovePolicies_loop B ?irule (first # pre @ r # rest) e)) @ m2"
    using RemovePolicies_after_loop [OF assms(1), of "first # pre @ r # rest" B E] by auto
  have c: "calls (snd (RemovePolicies B E (first # pre @ r # rest) e))
      = calls e @ ?before @ EvDelete (getShardIdx ?key) ?key # (m1 @ m2)"
    using m1 m2 loop by simp
  have d: "?key \<noteq> key_of (map String r)"
    using key_of_nonempty [OF ne] by (simp add: key_of_append)
  have len: "length (map String r @ ?leftover) = length first" using lb assms(5) by simp
  show ?thesis
    using ne len sl c d
    by (intro exI [of _ ?leftover] exI [of _ "m1 @ m2"]) simp
qed

lemma getShardIdx_samples:
  "getShardIdx ''a$$'' = 20" "getShardIdx ''a$$b$$'' = 2" "getShardIdx ''c$$b$$'' = 8"
  by (simp_all add: getShardIdx_def fnv32a_def shardPartitions_def)

text \<open>
  Claim C10, as stated, fails on both counts. A delete that fails for an earlier rule ends
  the call with an error return before the longer rule is copied. And a rule shorter than
  the first is not reached, and no key is built for it, when a longer rule before it has
  already made the call panic.
\<close>

theorem RemovePolicies_overflow_not_reached:
  "RemovePolicies StoreCache (ListEngine None) [[''a''], [''b'', ''c'']]
     (fresh\<lparr>cache := (cache fresh)[20 := Broken ''down'']\<rparr>)
   = (Return (False, Some (ErrOther ''down'')),
      fresh\<lparr>cache := (cache fresh)[20 := Broken ''down''], calls := [EvDelete 20 ''a$$'']\<rparr>)
   \<and> RemovePolicies StoreCache (ListEngine None) [[''a'', ''b''], [''c'', ''d'', ''e''], [''f'']]
       fresh
   = (Panic (IndexOutOfRange 2 2), fresh\<lparr>calls := [EvDelete 2 ''a$$b$$'']\<rparr>)"
  by (simp add: RemovePolicies_def getKey_def getShardIdx_samples shard_Delete_def fresh_def
      shardPartitions_def StoreCache_def DefaultCache_def replicate_update_same)

text \<open>
  Claim C10, amended. With caching enabled, consider the first rule, any further rules no
  longer than it, and then a rule \<open>r\<close>, where the deletes issued for the rules before \<open>r\<close>
  each return nil or not-found (nothing is asked of any other delete, nor of shards those
  deletes do not touch). If \<open>r\<close> is longer than the first rule, the copy into the buffer
  runs out of range at the first rule's length and the call panics; the calls made are
  exactly the deletes for the rules before \<open>r\<close>, so the engine's removal is not invoked. If
  \<open>r\<close> is shorter than the first rule, the key built for it is that of \<open>r\<close>'s parameters
  followed by the parameters that earlier rules left in the buffer beyond \<open>r\<close>'s length; it
  differs from the key of \<open>r\<close>, and it is the key of the delete issued for \<open>r\<close>, right after
  the deletes for the rules before it.
\<close>

theorem RemovePolicies_buffer:
  assumes "enableCache e \<noteq> 0" and "well_formed e"
    and "\<forall>q \<in> set pre. length q \<le> length first"
    and "deletes_pass B (built_keys (replicate (length first) NilValue) (first # pre)) (cache e)"
  shows "(length first < length r \<longrightarrow>
            RemovePolicies B E (first # pre @ r # rest) e =
              (Panic (IndexOutOfRange (length first) (length first)),
               e\<lparr>cache := fold (delete_at B)
                    (built_keys (replicate (length first) NilValue) (first # pre)) (cache e),
                 calls := calls e @ map (\<lambda>k. EvDelete (getShardIdx k) k)
                    (built_keys (replicate (length first) NilValue) (first # pre))\<rparr>)
            \<and> (\<forall>rs. EvRemovePolicies rs \<notin> set (map (\<lambda>k. EvDelete (getShardIdx k) k)
                    (built_keys (replicate (length first) NilValue) (first # pre))))
            \<and> length (built_keys (replicate (length first) NilValue) (first # pre))
                = Suc (length pre))
       \<and> (length r < length first \<longrightarrow>
            (\<exists>leftover more.
               leftover = drop (length r)
                  (foldl overwrite (replicate (length first) NilValue) (first # pre))
               \<and> leftover \<noteq> [] \<and> length (map String r @ leftover) = length first
               \<and> set leftover \<subseteq> String ` (\<Union> (set ` set (first # pre)))
               \<and> calls (snd (RemovePolicies B E (first # pre @ r # rest) e))
                   = calls e
                       @ map (\<lambda>k. EvDelete (getShardIdx k) k)
                           (built_keys (replicate (length first) NilValue) (first # pre))
                       @ EvDelete (getShardIdx (key_of (map String r @ leftover)))
                           (key_of (map String r @ leftover)) # more
               \<and> key_of (map String r @ leftover) \<noteq> key_of (map String r)))"
proof (intro conjI impI)
  assume "length first < length r"
  with assms show "RemovePolicies B E (first # pre @ r # rest) e =
      (Panic (IndexOutOfRange (length first) (length first)),
       e\<lparr>cache := fold (delete_at B)
            (built_keys (replicate (length first) NilValue) (first # pre)) (cache e),
         calls := calls e @ map (\<lambda>k. EvDelete (getShardIdx k) k)
            (built_keys (replicate (length first) NilValue) (first # pre))\<rparr>)"
    by (rule RemovePolicies_overflow)
next
  show "\<forall>rs. EvRemovePolicies rs \<notin> set (map (\<lambda>k. EvDelete (getShardIdx k) k)
      (built_keys (replicate (length first) NilValue) (first # pre)))"
    by auto
next
  show "length (built_keys (replicate (length first) NilValue) (first # pre)) = Suc (length pre)"
    by (simp add: length_built_keys)
next
  assume "length r < length first"
  with assms show "\<exists>leftover more.
      leftover = drop (length r)
         (foldl overwrite (replicate (length first) NilValue) (first # pre))
      \<and> leftover \<noteq> [] \<and> length (map String r @ leftover) = length first
      \<and> set leftover \<subseteq> String ` (\<Union> (set ` set (first # pre)))
      \<and> calls (snd (RemovePolicies B E (first # pre @ r # rest) e))
          = calls e
              @ map (\<lambda>k. EvDelete (getShardIdx k) k)
                  (built_keys (replicate (length first) NilValue) (first # pre))
              @ EvDelete (getShardIdx (key_of (map String r @ leftover)))
                  (key_of (map String r @ leftover)) # more
      \<and> key_of (map String r @ leftover) \<noteq> key_of (map String r)"
    by (rule RemovePolicies_leftover)
qed

theorem RemovePolicies_buffer_witness:
  "fst (RemovePolicies StoreCache (ListEngine None) [[''a''], [''b'', ''c'']]
          (fresh\<lparr>cache := (cache fresh)[3 := Broken ''down'']\<rparr>))
     = Panic (IndexOutOfRange 1 1)
   \<and> calls (snd (RemovePolicies StoreCache (ListEngine None) [[''a''], [''b'', ''c'']]
          (fresh\<lparr>cache := (cache fresh)[3 := Broken ''down'']\<rparr>)))
     = [EvDelete 20 ''a$$'']
   \<and> calls (snd (RemovePolicies StoreCache (ListEngine None) [[''a'', ''b''], [''c'']]
          (fresh\<lparr>cache := (cache fresh)[3 := Broken ''down'']\<rparr>)))
     = [EvDelete 2 ''a$$b$$'', EvDelete 8 ''c$$b$$'',
        EvRemovePolicies [[''a'', ''b''], [''c'']]]
   \<and> (\<exists>more.
         calls (snd (RemovePolicies StoreCache (ListEngine None) [[''a'', ''b''], [''c'']]
            (fresh\<lparr>cache := (cache fresh)[3 := Broken ''down'']\<rparr>)))
           = [EvDelete 2 ''a$$b$$'', EvDelete 8 ''c$$b$$''] @ more)
   \<and> key_of [String ''c'', String ''b''] \<noteq> key_of [String ''c'']"
proof -
  let ?e = "fresh\<lparr>cache := (cache fresh)[3 := Broken ''down'']\<rparr>"
  have a: "enableCache ?e \<noteq> 0" by (simp add: fresh_def)
  have w: "well_formed ?e" by (simp add: well_formed_def fresh_def)
  have p: "\<forall>q \<in> set ([] :: string list list). length q \<le> length [''a'']"
    and p': "\<forall>q \<in> set ([] :: string list list). length q \<le> length [''a'', ''b'']"
    by simp_all
  have k: "built_keys (replicate (length [''a'']) NilValue) [[''a'']] = [''a$$'']"
    and k': "built_keys (replicate (length [''a'', ''b'']) NilValue) [[''a'', ''b'']]
      = [''a$$b$$'']"
    by (simp_all add: overwrite_def getKey_def)
  have d: "deletes_pass StoreCache
      (built_keys (replicate (length [''a'']) NilValue) ([''a''] # [])) (cache ?e)"
    unfolding k
    by (simp add: getShardIdx_samples fresh_def shardPartitions_def StoreCache_def
        DefaultCache_def)
  have d': "deletes_pass StoreCache
      (built_keys (replicate (length [''a'', ''b'']) NilValue) ([''a'', ''b''] # [])) (cache ?e)"
    unfolding k'
    by (simp add: getShardIdx_samples fresh_def shardPartitions_def StoreCache_def
        DefaultCache_def)
  have 1: "length [''a''] < length [''b'', ''c'']"
    and 2: "length [''c''] < length [''a'', ''b'']" by simp_all
  note T1 = RemovePolicies_buffer [OF a w p d,
      of "[''b'', ''c'']" "ListEngine None" "[]", THEN conjunct1, rule_format, OF 1]
  note T2 = RemovePolicies_buffer [OF a w p' d',
      of "[''c'']" "ListEngine None" "[]", THEN conjunct2, rule_format, OF 2]
  have b: "foldl overwrite (replicate (length [''a'', ''b'']) NilValue) [[''a'', ''b'']]
      = [String ''a'', String ''b'']"
    by (simp add: overwrite_def)
  have c: "calls (snd (RemovePolicies StoreCache (ListEngine None) [[''a'', ''b''], [''c'']] ?e))
     = [EvDelete 2 ''a$$b$$'', EvDelete 8 ''c$$b$$'',
        EvRemovePolicies [[''a'', ''b''], [''c'']]]"
    by (simp add: RemovePolicies_def getKey_def getShardIdx_samples shard_Delete_def
        fresh_def shardPartitions_def StoreCache_def DefaultCache_def
        engine_RemovePolicies_def ListEngine_def)
  have n: "key_of [String ''c'', String ''b''] \<noteq> key_of [String ''c'']"
    by (simp add: key_of_def)
  from T1 have t1: "fst (RemovePolicies StoreCache (ListEngine None) [[''a''], [''b'', ''c'']] ?e)
      = Panic (IndexOutOfRange 1 1)"
    and t1': "calls (snd (RemovePolicies StoreCache (ListEngine None) [[''a''], [''b'', ''c'']] ?e))
      = [EvDelete 20 ''a$$'']"
    unfolding k by (simp_all add: getShardIdx_samples calls_fresh)
  from T2 obtain more where
    "calls (snd (RemovePolicies StoreCache (ListEngine None) [[''a'', ''b''], [''c'']] ?e))
      = calls ?e @ map (\<lambda>k. EvDelete (getShardIdx k) k) [''a$$b$$'']
          @ EvDelete (getShardIdx (key_of (map String [''c''] @ drop (length [''c''])
                [String ''a'', String ''b''])))
              (key_of (map String [''c''] @ drop (length [''c''])
                [String ''a'', String ''b''])) # more"
    unfolding k' b by auto
  then have t2: "\<exists>more.
      calls (snd (RemovePolicies StoreCache (ListEngine None) [[''a'', ''b''], [''c'']] ?e))
        = [EvDelete 2 ''a$$b$$'', EvDelete 8 ''c$$b$$''] @ more"
    by (simp add: getShardIdx_samples calls_fresh key_of_def)
  from t1 t1' t2 c n show ?thesis by simp
qed

end
